theory Spec2Isabelle
  imports Main
begin

section \<open>JavaScript values used by the helpers\<close>

text \<open>
  The configuration constants imported from \<^verbatim>\<open>./constants.js\<close> are environment
  values: a string, or \<^verbatim>\<open>undefined\<close> when the variable is not set. The same type
  serves for a token read from the token array (an out-of-range read is
  \<^verbatim>\<open>undefined\<close>) and for a header value.
\<close>

datatype jsval = Undefined | Str string

text \<open>\<^verbatim>\<open>Boolean(v)\<close>, the predicate of \<^verbatim>\<open>.filter(Boolean)\<close> and of \<^verbatim>\<open>!v\<close>.\<close>

fun Boolean :: "jsval \<Rightarrow> bool" where
  "Boolean Undefined = False"
| "Boolean (Str s) = (s \<noteq> [])"

text \<open>String conversion inside a template literal: \<^verbatim>\<open>`${v}`\<close>.\<close>

fun to_string :: "jsval \<Rightarrow> string" where
  "to_string Undefined = ''undefined''"
| "to_string (Str s) = s"

text \<open>
  The token index is a JavaScript number. It is a non-negative integer as long as
  the token array is not empty; with an empty array \<^verbatim>\<open>(tokenIndex + 1) % 0\<close> is
  \<^verbatim>\<open>NaN\<close>, and it stays \<^verbatim>\<open>NaN\<close> from then on.
\<close>

datatype jsnum = NaN | Num nat

text \<open>\<^verbatim>\<open>tokens[tokenIndex]\<close>: out of range and at \<^verbatim>\<open>NaN\<close> the read is \<^verbatim>\<open>undefined\<close>.\<close>

fun js_index :: "jsval list \<Rightarrow> jsnum \<Rightarrow> jsval" where
  "js_index xs NaN = Undefined"
| "js_index xs (Num i) = (if i < length xs then xs ! i else Undefined)"

text \<open>\<^verbatim>\<open>(tokenIndex + 1) % tokens.length\<close>, the rotation step of both catch blocks.\<close>

fun next_index :: "jsnum \<Rightarrow> nat \<Rightarrow> jsnum" where
  "next_index NaN n = NaN"
| "next_index (Num i) n = (if n = 0 then NaN else Num ((i + 1) mod n))"

text \<open>Decimal rendering of a non-negative integer, as \<^verbatim>\<open>`${response.status}`\<close> gives it.\<close>

fun decimal :: "nat \<Rightarrow> string" where
  "decimal n = (if n < 10 then [''0123456789'' ! n] else decimal (n div 10) @ [''0123456789'' ! (n mod 10)])"

declare decimal.simps [simp del]

text \<open>
  A thrown value: an \<^verbatim>\<open>Error\<close> object with its \<^verbatim>\<open>name\<close> and \<^verbatim>\<open>message\<close>.
  \<open>error_text\<close> is \<^verbatim>\<open>`${error}`\<close>, that is \<^verbatim>\<open>Error.prototype.toString\<close>.
\<close>

datatype js_error = JsError string string

fun error_text :: "js_error \<Rightarrow> string" where
  "error_text (JsError name msg) =
     (if name = [] then msg else if msg = [] then name else name @ '': '' @ msg)"

section \<open>Configuration, requests and the environment\<close>

record config =
  ACCOUNT_EMAIL :: jsval
  API_KEY :: jsval
  API_TOKEN :: jsval
  API_TOKEN_1 :: jsval
  API_TOKEN_2 :: jsval
  API_TOKEN_3 :: jsval

text \<open>
  A header object is a finite map from header names to values. The \<^verbatim>\<open>options\<close>
  argument is a \<^verbatim>\<open>RequestInit\<close>: its \<^verbatim>\<open>headers\<close> may be absent, and the fields other
  than \<^verbatim>\<open>headers\<close> are passed to \<^verbatim>\<open>fetch\<close> unchanged by \<^verbatim>\<open>...options\<close>.
\<close>

type_synonym headers = "string \<rightharpoonup> jsval"

record options =
  opt_method :: jsval
  opt_body :: jsval
  opt_headers :: "headers option"

text \<open>\<^verbatim>\<open>{...h}\<close> for a header object that may be \<^verbatim>\<open>undefined\<close>.\<close>

fun spread :: "headers option \<Rightarrow> headers" where
  "spread None = Map.empty"
| "spread (Some h) = h"

text \<open>
  What one call of \<^verbatim>\<open>fetch\<close> followed by \<^verbatim>\<open>response.json()\<close> can do: the fetch
  rejects, or it resolves to a response with a status whose body either fails to
  parse (the \<^verbatim>\<open>json()\<close> promise rejects) or parses to a value of type \<open>'d\<close>.
  The environment gives the outcome of the \<open>n\<close>-th fetch of one call of
  \<^verbatim>\<open>request\<close>, counted from 0: a sequence of responses and errors, fixed
  before the call, whatever is sent.
\<close>

datatype 'd outcome = Rejects js_error | Responds nat "js_error + 'd"

text \<open>\<^verbatim>\<open>response.ok\<close>: the status is in the range 200 to 299.\<close>

definition response_ok :: "nat \<Rightarrow> bool" where
  "response_ok st = (200 \<le> st \<and> st \<le> 299)"

text \<open>
  The observable effects of \<^verbatim>\<open>request\<close>, in the order they happen: a call of
  \<^verbatim>\<open>fetch(url, init)\<close>, a call of \<^verbatim>\<open>wait(ms)\<close>, a call of \<^verbatim>\<open>notifyWebhook(msg)\<close>.
  \<^verbatim>\<open>notifyWebhook\<close> catches whatever goes wrong inside it and always resolves,
  so a call of it never changes the control flow of its caller. Console output
  is not recorded.
\<close>

datatype event = Fetch string options | Wait nat | Notify string

fun is_fetch :: "event \<Rightarrow> bool" where
  "is_fetch (Fetch u i) = True"
| "is_fetch e = False"

fun is_notify :: "event \<Rightarrow> bool" where
  "is_notify (Notify m) = True"
| "is_notify e = False"

text \<open>
  The local variables of \<^verbatim>\<open>request\<close> (\<open>response\<close> holds the status of the last
  response, \<open>None\<close> while it is \<^verbatim>\<open>undefined\<close>), the number of fetches made so far
  and the effects so far.
\<close>

record 'd state =
  response :: "nat option"
  data :: "'d option"
  attempts :: nat
  tokenIndex :: jsnum
  fetches :: nat
  trace :: "event list"

definition initial :: "'d state" where
  "initial = \<lparr>response = None, data = None, attempts = 0, tokenIndex = Num 0,
     fetches = 0, trace = []\<rparr>"

definition maxAttempts :: nat where
  "maxAttempts = 50"

text \<open>How a call of \<^verbatim>\<open>request\<close> ends.\<close>

datatype 'd result = Returns 'd | ReturnsUndefined | Throws js_error

section \<open>One attempt: the body of the try block\<close>

text \<open>
  \<^verbatim>\<open>fetch(url, {...options, headers: {...options.headers, ...headers}})\<close>: the
  second argument.
\<close>

definition fetch_init :: "options \<Rightarrow> headers \<Rightarrow> options" where
  "fetch_init opts hs = opts\<lparr>opt_headers := Some (spread (opt_headers opts) ++ hs)\<rparr>"

text \<open>
  From the call of \<^verbatim>\<open>fetch\<close> to \<^verbatim>\<open>return data\<close> (the same statements in both files):
  \<open>Inr d\<close> when the try block returns \<open>d\<close>, \<open>Inl e\<close> when it throws \<open>e\<close>.
  \<open>response\<close> is assigned as soon as the fetch resolves and \<open>data\<close> as soon as the
  body has parsed, whatever the status.
\<close>

definition attempt ::
  "(nat \<Rightarrow> 'd outcome) \<Rightarrow> string \<Rightarrow> options \<Rightarrow> 'd state \<Rightarrow> (js_error + 'd) \<times> 'd state" where
  "attempt env url init s =
     (let s1 = s\<lparr>fetches := Suc (fetches s), trace := trace s @ [Fetch url init]\<rparr> in
      case env (fetches s) of
        Rejects e \<Rightarrow> (Inl e, s1)
      | Responds st body \<Rightarrow>
          (let s2 = s1\<lparr>response := Some st\<rparr> in
           case body of
             Inl e \<Rightarrow> (Inl e, s2)
           | Inr d \<Rightarrow>
               (let s3 = s2\<lparr>data := Some d\<rparr> in
                if \<not> response_ok st then (Inl (JsError ''Error'' ''Response not OK''), s3)
                else (Inr d, s3))))"

section \<open>\<^verbatim>\<open>request\<close> in src/lib/helpers.js\<close>

definition tokens_A :: "config \<Rightarrow> jsval list" where
  "tokens_A cfg = filter Boolean [API_TOKEN_1 cfg, API_TOKEN_2 cfg, API_TOKEN_3 cfg, API_TOKEN cfg]"

definition headers_A :: "config \<Rightarrow> jsval \<Rightarrow> headers" where
  "headers_A cfg currentToken =
     [''Authorization'' \<mapsto> Str (''Bearer '' @ to_string currentToken),
      ''Content-Type'' \<mapsto> Str ''application/json'']
     ++ (if currentToken = API_KEY cfg
         then [''X-Auth-Email'' \<mapsto> ACCOUNT_EMAIL cfg, ''X-Auth-Key'' \<mapsto> API_KEY cfg]
         else Map.empty)"

text \<open>The catch block: rotate, count the attempt, wait when the index is 0 again.\<close>

definition catch_A :: "jsval list \<Rightarrow> 'd state \<Rightarrow> 'd state" where
  "catch_A tokens s =
     (let s1 = s\<lparr>tokenIndex := next_index (tokenIndex s) (length tokens)\<rparr>;
          s2 = s1\<lparr>attempts := Suc (attempts s1)\<rparr>
      in if tokenIndex s2 = Num 0 then s2\<lparr>trace := trace s2 @ [Wait 5000]\<rparr> else s2)"

function loop_A ::
  "config \<Rightarrow> (nat \<Rightarrow> 'd outcome) \<Rightarrow> string \<Rightarrow> options \<Rightarrow> jsval list \<Rightarrow> 'd state
     \<Rightarrow> 'd result \<times> 'd state" where
  "loop_A cfg env url opts tokens s =
     (if attempts s < maxAttempts then
        (let currentToken = js_index tokens (tokenIndex s) in
         case attempt env url (fetch_init opts (headers_A cfg currentToken)) s of
           (Inr d, s') \<Rightarrow> (Returns d, s')
         | (Inl e, s') \<Rightarrow> loop_A cfg env url opts tokens (catch_A tokens s'))
      else (Throws (JsError ''Error'' ''All tokens failed after maximum attempts''), s))"
  by pat_completeness auto

termination loop_A
proof (relation "measure (\<lambda>(cfg, env, url, opts, tokens, s). maxAttempts - attempts s)")
  show "wf (measure (\<lambda>(cfg, env, url, opts, tokens, s). maxAttempts - attempts (s :: 'a state)))"
    by simp
next
  fix cfg :: config and env :: "nat \<Rightarrow> 'a outcome" and url opts tokens
    and s s' :: "'a state" and currentToken x e
  assume lt: "attempts s < maxAttempts"
    and att: "(x, s') = attempt env url (fetch_init opts (headers_A cfg currentToken)) s"
  from att have "attempts s' = attempts s"
    by (auto simp: attempt_def Let_def split: outcome.splits sum.splits if_splits)
  with lt show "((cfg, env, url, opts, tokens, catch_A tokens s'), (cfg, env, url, opts, tokens, s))
      \<in> measure (\<lambda>(cfg, env, url, opts, tokens, s). maxAttempts - attempts s)"
    by (simp add: catch_A_def Let_def)
qed

declare loop_A.simps [simp del]

definition request_A ::
  "config \<Rightarrow> (nat \<Rightarrow> 'd outcome) \<Rightarrow> string \<Rightarrow> options \<Rightarrow> 'd result \<times> 'd state" where
  "request_A cfg env url opts = loop_A cfg env url opts (tokens_A cfg) initial"

section \<open>\<^verbatim>\<open>request\<close> in src/unnamed/part_000\<close>

definition tokens_B :: "config \<Rightarrow> jsval list" where
  "tokens_B cfg = filter Boolean [API_TOKEN cfg, API_TOKEN_1 cfg, API_TOKEN_2 cfg, API_TOKEN_3 cfg]"

definition headers_B :: "jsval \<Rightarrow> headers" where
  "headers_B currentToken =
     [''Authorization'' \<mapsto> Str (''Bearer '' @ to_string currentToken),
      ''Content-Type'' \<mapsto> Str ''application/json'']"

text \<open>The argument of \<^verbatim>\<open>notifyWebhook\<close> in the catch block.\<close>

definition notify_message :: "nat option \<Rightarrow> string" where
  "notify_message resp =
     ''An HTTP error has occurred ('' @ (case resp of Some st \<Rightarrow> decimal st | None \<Rightarrow> ''unknown status'')
       @ '') while making a web request. Please check the logs for further details.''"

text \<open>
  The value thrown by the \<^verbatim>\<open>throw new Error(`HTTP error! Status: ...`)\<close> statement.
  The template is evaluated left to right. \<^verbatim>\<open>response.status\<close> raises a
  \<^verbatim>\<open>TypeError\<close> when no fetch has resolved (its message is the one Node.js
  gives). The middle part,
  \<^verbatim>\<open>data && 'errors' in data ? data.errors[0].message : data\<close> converted to a string,
  inspects the parsed body, which the model leaves opaque: the parameter
  \<open>describe\<close> stands for it, \<open>Inr\<close> the text and \<open>Inl\<close> the error it raises.
\<close>

definition exhausted_error ::
  "('d option \<Rightarrow> js_error + string) \<Rightarrow> nat option \<Rightarrow> 'd option \<Rightarrow> js_error \<Rightarrow> js_error" where
  "exhausted_error describe resp dat err =
     (case resp of
        None \<Rightarrow> JsError ''TypeError'' ''Cannot read properties of undefined (reading 'status')''
      | Some st \<Rightarrow>
          (case describe dat of
             Inl e \<Rightarrow> e
           | Inr txt \<Rightarrow>
               JsError ''Error''
                 (''HTTP error! Status: '' @ decimal st @ '' - '' @ txt @ '' - '' @ error_text err)))"

text \<open>
  The loop of this file does not count an iteration that takes the
  \<^verbatim>\<open>continue\<close> branch, so it need not end. The first argument bounds the number of
  iterations of the while loop; a run that needs more ends as \<open>OutOfFuel\<close>.
\<close>

datatype 'd run = Finished "'d result" "'d state" | OutOfFuel "'d state"

fun loop_B ::
  "nat \<Rightarrow> ('d option \<Rightarrow> js_error + string) \<Rightarrow> (nat \<Rightarrow> 'd outcome) \<Rightarrow> string \<Rightarrow> options
     \<Rightarrow> jsval list \<Rightarrow> 'd state \<Rightarrow> 'd run" where
  "loop_B 0 describe env url opts allTokens s = OutOfFuel s"
| "loop_B (Suc fuel) describe env url opts allTokens s =
     (if attempts s < maxAttempts then
        (let currentToken = js_index allTokens (tokenIndex s) in
         if \<not> Boolean currentToken then
           loop_B fuel describe env url opts allTokens
             (s\<lparr>tokenIndex := next_index (tokenIndex s) (length allTokens)\<rparr>)
         else
           (case attempt env url (fetch_init opts (headers_B currentToken)) s of
              (Inr d, s') \<Rightarrow> Finished (Returns d) s'
            | (Inl e, s') \<Rightarrow>
                (let s1 = s'\<lparr>attempts := Suc (attempts s')\<rparr>;
                     s2 = s1\<lparr>tokenIndex := next_index (tokenIndex s1) (length allTokens)\<rparr>
                 in if attempts s2 \<ge> maxAttempts then
                      (let s3 = s2\<lparr>trace := trace s2 @ [Notify (notify_message (response s2))]\<rparr>
                       in Finished (Throws (exhausted_error describe (response s3) (data s3) e)) s3)
                    else
                      loop_B fuel describe env url opts allTokens
                        (s2\<lparr>trace := trace s2 @ [Wait 5000]\<rparr>))))
      else Finished ReturnsUndefined s)"

definition request_B ::
  "nat \<Rightarrow> ('d option \<Rightarrow> js_error + string) \<Rightarrow> config \<Rightarrow> (nat \<Rightarrow> 'd outcome) \<Rightarrow> string \<Rightarrow> options
     \<Rightarrow> 'd run" where
  "request_B fuel describe cfg env url opts =
     loop_B fuel describe env url opts (tokens_B cfg) initial"

section \<open>\<^verbatim>\<open>normalizeDomain\<close>\<close>

text \<open>
  \<^verbatim>\<open>s.replace(pat, "")\<close> with a string pattern: the first occurrence of \<open>pat\<close> is
  removed, and \<open>s\<close> is returned as it is when there is none.
\<close>

fun remove_first :: "string \<Rightarrow> string \<Rightarrow> string" where
  "remove_first pat [] = []"
| "remove_first pat (c # cs) =
     (if take (length pat) (c # cs) = pat then drop (length pat) (c # cs)
      else c # remove_first pat cs)"

text \<open>The class \<^verbatim>\<open>\s\<close> on characters below 256: tab, LF, VT, FF, CR, space, NBSP.\<close>

definition is_space :: "char \<Rightarrow> bool" where
  "is_space c = (of_char c \<in> {9, 10, 11, 12, 13, 32, 160 :: nat})"

text \<open>
  The regular expression \<^verbatim>\<open>/(0\.0\.0\.0|127\.0\.0\.1|::1|::)\s+/\<close> at the start of
  \<open>s\<close>: the alternatives are tried in their order, each must be followed by at
  least one white-space character, and \<^verbatim>\<open>\s+\<close> takes all that follow. The result is
  what is left of \<open>s\<close> after the match.
\<close>

fun match_here :: "string list \<Rightarrow> string \<Rightarrow> string option" where
  "match_here [] s = None"
| "match_here (p # ps) s =
     (if take (length p) s = p \<and> drop (length p) s \<noteq> [] \<and> is_space (hd (drop (length p) s))
      then Some (dropWhile is_space (drop (length p) s))
      else match_here ps s)"

text \<open>\<^verbatim>\<open>s.replace(/(0\.0\.0\.0|127\.0\.0\.1|::1|::)\s+/, "")\<close>: the leftmost match is removed.\<close>

fun remove_hosts_prefix :: "string \<Rightarrow> string" where
  "remove_hosts_prefix [] = []"
| "remove_hosts_prefix (c # cs) =
     (case match_here [''0.0.0.0'', ''127.0.0.1'', ''::1'', ''::''] (c # cs) of
        Some rest \<Rightarrow> rest
      | None \<Rightarrow> c # remove_hosts_prefix cs)"

definition normalizeDomain :: "string \<Rightarrow> bool \<Rightarrow> string" where
  "normalizeDomain value isAllowlisting =
     (let normalized =
        remove_first ''^''
          (remove_first ''*.''
            (remove_first ''^$important''
              (remove_first ''||''
                (remove_hosts_prefix value))))
      in if isAllowlisting then remove_first ''@@||'' normalized else normalized)"


section \<open>Notions used to state the properties\<close>

text \<open>
  An attempt succeeds when the fetch resolves with a status in the 2xx range and
  a body that parses; \<open>success_of\<close> gives the parsed body of a successful
  outcome. \<open>failure_of\<close> is the error a failed attempt leaves in the catch block.
\<close>

fun success_of :: "'d outcome \<Rightarrow> 'd option" where
  "success_of (Rejects e) = None"
| "success_of (Responds st (Inl e)) = None"
| "success_of (Responds st (Inr d)) = (if response_ok st then Some d else None)"

fun failure_of :: "'d outcome \<Rightarrow> js_error" where
  "failure_of (Rejects e) = e"
| "failure_of (Responds st (Inl e)) = e"
| "failure_of (Responds st (Inr d)) = JsError ''Error'' ''Response not OK''"

text \<open>The status of the last response among the first \<open>n\<close> fetches, if any resolved.\<close>

fun last_status :: "(nat \<Rightarrow> 'd outcome) \<Rightarrow> nat \<Rightarrow> nat option" where
  "last_status env 0 = None"
| "last_status env (Suc n) =
     (case env n of Responds st body \<Rightarrow> Some st | Rejects e \<Rightarrow> last_status env n)"

text \<open>The token index after \<open>k\<close> rotations from 0, with \<open>n\<close> tokens.\<close>

definition index_after :: "nat \<Rightarrow> nat \<Rightarrow> jsnum" where
  "index_after n k = ((\<lambda>i. next_index i n) ^^ k) (Num 0)"

text \<open>The token in use at attempt \<open>k\<close> (counted from 0), after \<open>k\<close> rotations.\<close>

definition current_token :: "jsval list \<Rightarrow> nat \<Rightarrow> jsval" where
  "current_token tokens k = js_index tokens (index_after (length tokens) k)"

text \<open>The second argument of the fetch of attempt \<open>k\<close> in each file.\<close>

definition sent_A :: "config \<Rightarrow> options \<Rightarrow> nat \<Rightarrow> options" where
  "sent_A cfg opts k = fetch_init opts (headers_A cfg (current_token (tokens_A cfg) k))"

definition sent_B :: "config \<Rightarrow> options \<Rightarrow> nat \<Rightarrow> options" where
  "sent_B cfg opts k = fetch_init opts (headers_B (current_token (tokens_B cfg) k))"

text \<open>\<open>segments seg a n\<close> is \<open>seg a @ seg (a + 1) @ ... @ seg (a + n - 1)\<close>.\<close>

fun segments :: "(nat \<Rightarrow> event list) \<Rightarrow> nat \<Rightarrow> nat \<Rightarrow> event list" where
  "segments seg a 0 = []"
| "segments seg a (Suc n) = seg a @ segments seg (Suc a) n"

text \<open>The effects of attempt \<open>k\<close> of src/lib/helpers.js when it fails.\<close>

definition failed_A :: "config \<Rightarrow> string \<Rightarrow> options \<Rightarrow> nat \<Rightarrow> event list" where
  "failed_A cfg url opts k =
     Fetch url (sent_A cfg opts k)
       # (if index_after (length (tokens_A cfg)) (Suc k) = Num 0 then [Wait 5000] else [])"

text \<open>The effects of attempt \<open>k\<close> of src/unnamed/part_000 when it fails and is not the last.\<close>

definition failed_B :: "config \<Rightarrow> string \<Rightarrow> options \<Rightarrow> nat \<Rightarrow> event list" where
  "failed_B cfg url opts k = [Fetch url (sent_B cfg opts k), Wait 5000]"

text \<open>
  The delays of a trace, and the delays that follow each fetch of a trace up to
  the next fetch: one list of milliseconds per attempt, in the order of the
  attempts.
\<close>

fun waits :: "event list \<Rightarrow> nat list" where
  "waits [] = []"
| "waits (Wait ms # tr) = ms # waits tr"
| "waits (e # tr) = waits tr"

fun delays_per_attempt :: "event list \<Rightarrow> nat list list" where
  "delays_per_attempt [] = []"
| "delays_per_attempt (Fetch u i # tr) =
     waits (takeWhile (\<lambda>e. \<not> is_fetch e) tr) # delays_per_attempt tr"
| "delays_per_attempt (e # tr) = delays_per_attempt tr"

text \<open>The state a run of src/unnamed/part_000 has reached, finished or not.\<close>

fun final_state :: "'d run \<Rightarrow> 'd state" where
  "final_state (Finished r s) = s"
| "final_state (OutOfFuel s) = s"

text \<open>
  The backoff the specification describes: the attempt \<open>k\<close> (counted from 0) is
  followed by one delay of 5000 ms when it failed and the rotation after it
  brought the token index back to 0, and by no delay otherwise.
\<close>

definition backoff_once_per_cycle :: "(nat \<Rightarrow> 'd outcome) \<Rightarrow> nat \<Rightarrow> event list \<Rightarrow> bool" where
  "backoff_once_per_cycle env n tr =
     (delays_per_attempt tr =
        map (\<lambda>k. if success_of (env k) = None \<and> index_after n (Suc k) = Num 0 then [5000] else [])
          [0..<length (filter is_fetch tr)])"

text \<open>
  The backoff of src/unnamed/part_000: every failed attempt but the one that
  uses up the budget is followed by one delay of 5000 ms.
\<close>

definition backoff_after_failure :: "(nat \<Rightarrow> 'd outcome) \<Rightarrow> event list \<Rightarrow> bool" where
  "backoff_after_failure env tr =
     (delays_per_attempt tr =
        map (\<lambda>k. if success_of (env k) = None \<and> Suc k < maxAttempts then [5000] else [])
          [0..<length (filter is_fetch tr)])"

text \<open>
  The run ends with one call of the notifier, after all its fetches, and the
  message carries the status of the last response (or says that there was none).
\<close>

definition notifies_exhaustion :: "(nat \<Rightarrow> 'd outcome) \<Rightarrow> event list \<Rightarrow> bool" where
  "notifies_exhaustion env tr =
     (tr \<noteq> []
      \<and> last tr = Notify (notify_message (last_status env (length (filter is_fetch tr))))
      \<and> filter is_notify (butlast tr) = [])"

text \<open>
  The header override the specification describes, for the second argument
  \<open>init\<close> of a fetch made with the token \<open>tok\<close> and the caller's \<open>opts\<close>: the
  two keys carry the bearer token and the JSON content type, and apart from
  these two keys the headers sent are the caller's. The second predicate is the
  same with four keys set, the two \<^verbatim>\<open>X-Auth\<close> keys carrying the account
  email and the API key.
\<close>

definition authorization_overrides :: "options \<Rightarrow> jsval \<Rightarrow> options \<Rightarrow> bool" where
  "authorization_overrides opts tok init =
     (spread (opt_headers init) ''Authorization'' = Some (Str (''Bearer '' @ to_string tok))
      \<and> spread (opt_headers init) ''Content-Type'' = Some (Str ''application/json'')
      \<and> (spread (opt_headers init))(''Authorization'' := None, ''Content-Type'' := None)
          = (spread (opt_headers opts))(''Authorization'' := None, ''Content-Type'' := None))"

definition authorization_and_key_override :: "config \<Rightarrow> options \<Rightarrow> jsval \<Rightarrow> options \<Rightarrow> bool" where
  "authorization_and_key_override cfg opts tok init =
     (spread (opt_headers init) ''Authorization'' = Some (Str (''Bearer '' @ to_string tok))
      \<and> spread (opt_headers init) ''Content-Type'' = Some (Str ''application/json'')
      \<and> spread (opt_headers init) ''X-Auth-Email'' = Some (ACCOUNT_EMAIL cfg)
      \<and> spread (opt_headers init) ''X-Auth-Key'' = Some (API_KEY cfg)
      \<and> (spread (opt_headers init))
            (''Authorization'' := None, ''Content-Type'' := None, ''X-Auth-Email'' := None, ''X-Auth-Key'' := None)
          = (spread (opt_headers opts))
            (''Authorization'' := None, ''Content-Type'' := None, ''X-Auth-Email'' := None, ''X-Auth-Key'' := None))"

text \<open>
  What a caller and the outside world see of a call: how it ends and its
  effects in order. The two files behave the same on an input when
  src/unnamed/part_000 ends, within the 50 iterations that suffice whenever it
  ends, and both give the same result and the same effects.
\<close>

definition observed_A ::
  "config \<Rightarrow> (nat \<Rightarrow> 'd outcome) \<Rightarrow> string \<Rightarrow> options \<Rightarrow> 'd result \<times> event list" where
  "observed_A cfg env url opts =
     (fst (request_A cfg env url opts), trace (snd (request_A cfg env url opts)))"

definition observed_B ::
  "nat \<Rightarrow> ('d option \<Rightarrow> js_error + string) \<Rightarrow> config \<Rightarrow> (nat \<Rightarrow> 'd outcome) \<Rightarrow> string \<Rightarrow> options
     \<Rightarrow> ('d result \<times> event list) option" where
  "observed_B fuel describe cfg env url opts =
     (case request_B fuel describe cfg env url opts of
        Finished r s \<Rightarrow> Some (r, trace s)
      | OutOfFuel s \<Rightarrow> None)"

definition same_behaviour ::
  "('d option \<Rightarrow> js_error + string) \<Rightarrow> config \<Rightarrow> (nat \<Rightarrow> 'd outcome) \<Rightarrow> string \<Rightarrow> options \<Rightarrow> bool" where
  "same_behaviour describe cfg env url opts =
     (observed_B maxAttempts describe cfg env url opts = Some (observed_A cfg env url opts))"

text \<open>Concrete inputs for the examples.\<close>

definition no_credentials :: config where
  "no_credentials = \<lparr>ACCOUNT_EMAIL = Undefined, API_KEY = Undefined, API_TOKEN = Undefined,
     API_TOKEN_1 = Undefined, API_TOKEN_2 = Undefined, API_TOKEN_3 = Undefined\<rparr>"

definition one_token :: config where
  "one_token = \<lparr>ACCOUNT_EMAIL = Undefined, API_KEY = Undefined, API_TOKEN = Str ''t0'',
     API_TOKEN_1 = Undefined, API_TOKEN_2 = Undefined, API_TOKEN_3 = Undefined\<rparr>"

definition two_tokens :: config where
  "two_tokens = \<lparr>ACCOUNT_EMAIL = Undefined, API_KEY = Undefined, API_TOKEN = Str ''t0'',
     API_TOKEN_1 = Str ''t1'', API_TOKEN_2 = Undefined, API_TOKEN_3 = Undefined\<rparr>"

definition key_as_token :: config where
  "key_as_token = \<lparr>ACCOUNT_EMAIL = Str ''me@example.com'', API_KEY = Str ''t0'', API_TOKEN = Str ''t0'',
     API_TOKEN_1 = Undefined, API_TOKEN_2 = Undefined, API_TOKEN_3 = Undefined\<rparr>"

definition plain_get :: options where
  "plain_get = \<lparr>opt_method = Str ''GET'', opt_body = Undefined, opt_headers = None\<rparr>"

definition get_with_key :: options where
  "get_with_key = \<lparr>opt_method = Str ''GET'', opt_body = Undefined,
     opt_headers = Some [''X-Auth-Key'' \<mapsto> Str ''mine'']\<rparr>"

text \<open>Environments whose bodies parse to strings: the first fetch fails, or the first two, or all.\<close>

definition fails_once :: "nat \<Rightarrow> string outcome" where
  "fails_once k = (if k = 0 then Responds 500 (Inr ''busy'') else Responds 200 (Inr ''ok''))"

definition fails_twice :: "nat \<Rightarrow> string outcome" where
  "fails_twice k = (if k < 2 then Responds 500 (Inr ''busy'') else Responds 200 (Inr ''ok''))"

definition always_fails :: "nat \<Rightarrow> string outcome" where
  "always_fails k = Responds 503 (Inl (JsError ''SyntaxError'' ''Unexpected end of JSON input''))"

text \<open>
  The \<open>describe\<close> of a body that parsed to a string: the empty string is falsy
  and is its own text, and \<^verbatim>\<open>'errors' in data\<close> raises on any other string.
\<close>

definition describe_string :: "string option \<Rightarrow> js_error + string" where
  "describe_string dat =
     (case dat of
        None \<Rightarrow> Inr ''undefined''
      | Some t \<Rightarrow>
          (if t = [] then Inr []
           else Inl (JsError ''TypeError''
             (''Cannot use 'in' operator to search for 'errors' in '' @ t))))"

section \<open>The steps of the loops\<close>

lemma attempt_frame:
  assumes "attempt env url init s = (x, s')"
  shows "attempts s' = attempts s" and "tokenIndex s' = tokenIndex s"
    and "fetches s' = Suc (fetches s)" and "trace s' = trace s @ [Fetch url init]"
  using assms
  by (auto simp: attempt_def Let_def split: outcome.splits sum.splits if_splits)

lemma attempt_Inr:
  assumes "attempt env url init s = (Inr d, s')"
  shows "success_of (env (fetches s)) = Some d"
  using assms
  by (auto simp: attempt_def Let_def split: outcome.splits sum.splits if_splits)

lemma attempt_Inl:
  assumes "attempt env url init s = (Inl e, s')"
  shows "success_of (env (fetches s)) = None" and "e = failure_of (env (fetches s))"
  using assms
  by (auto simp: attempt_def Let_def split: outcome.splits sum.splits if_splits)

lemma attempt_response:
  assumes "attempt env url init s = (x, s')" and "response s = last_status env (fetches s)"
  shows "response s' = last_status env (fetches s')"
  using assms
  by (auto simp: attempt_def Let_def split: outcome.splits sum.splits if_splits)

lemma catch_A_frame:
  "attempts (catch_A tokens s) = Suc (attempts s)"
  "fetches (catch_A tokens s) = fetches s"
  "tokenIndex (catch_A tokens s) = next_index (tokenIndex s) (length tokens)"
  "trace (catch_A tokens s) =
     trace s @ (if next_index (tokenIndex s) (length tokens) = Num 0 then [Wait 5000] else [])"
  by (simp_all add: catch_A_def Let_def)

lemma index_after_Suc: "index_after n (Suc k) = next_index (index_after n k) n"
  by (simp add: index_after_def)

lemma index_after_0: "index_after n 0 = Num 0"
  by (simp add: index_after_def)

lemma index_after_mod: "0 < n \<Longrightarrow> index_after n k = Num (k mod n)"
  by (induction k) (simp_all add: index_after_Suc index_after_0 mod_Suc_eq)

lemma rotate_power: "0 < n \<Longrightarrow> i < n \<Longrightarrow> ((\<lambda>idx. next_index idx n) ^^ j) (Num i) = Num ((i + j) mod n)"
  by (induction j) (simp_all add: mod_Suc_eq)

lemma segments_step:
  assumes "a < b"
  shows "segments seg a (b - a) = seg a @ segments seg (Suc a) (b - Suc a)"
proof -
  from assms have "b - a = Suc (b - Suc a)" by arith
  then show ?thesis by (simp only: segments.simps)
qed

lemma catch_A_power: "tokenIndex ((catch_A tokens ^^ j) s) = ((\<lambda>idx. next_index idx (length tokens)) ^^ j) (tokenIndex s)"
  by (induction j) (simp_all add: catch_A_frame)

lemma rot_inj: "0 < n \<Longrightarrow> inj_on (\<lambda>idx. next_index idx n) (Num ` {..<n})"
proof (rule inj_onI)
  fix x y assume n: "0 < n" and x: "x \<in> Num ` {..<n}" and y: "y \<in> Num ` {..<n}"
    and eq: "next_index x n = next_index y n"
  from x y obtain i j where ij: "x = Num i" "i < n" "y = Num j" "j < n" by auto
  with eq n have "Suc i mod n = Suc j mod n" by simp
  with ij have "i = j"
    by (metis Suc_lessI mod_less mod_self nat.inject nat.simps(3))
  with ij show "x = y" by simp
qed

lemma rot_into: "0 < n \<Longrightarrow> (\<lambda>idx. next_index idx n) ` (Num ` {..<n}) \<subseteq> Num ` {..<n}"
  by auto

lemma rot_bij: "0 < n \<Longrightarrow> bij_betw (\<lambda>idx. next_index idx n) (Num ` {..<n}) (Num ` {..<n})"
  unfolding bij_betw_def
  using rot_inj [of n] rot_into [of n] endo_inj_surj [of "Num ` {..<n}" "\<lambda>idx. next_index idx n"]
  by simp

section \<open>Traces made of attempts\<close>

lemma delays_skip:
  assumes "\<forall>e\<in>set ws. \<not> is_fetch e"
  shows "delays_per_attempt (ws @ tr) = delays_per_attempt tr"
  using assms
proof (induction ws)
  case Nil
  then show ?case by simp
next
  case (Cons e ws)
  then show ?case by (cases e) simp_all
qed

lemma takeWhile_segment:
  assumes "\<forall>e\<in>set ws. \<not> is_fetch e" and "tr = [] \<or> is_fetch (hd tr)"
  shows "takeWhile (\<lambda>e. \<not> is_fetch e) (ws @ tr) = ws"
proof (cases tr)
  case Nil
  with assms(1) show ?thesis by simp
next
  case (Cons e tr')
  with assms show ?thesis by simp
qed

lemma segments_head:
  assumes "\<And>k. seg k = Fetch url (init k) # ws k" and "rest = [] \<or> is_fetch (hd rest)"
  shows "segments seg a n @ rest = [] \<or> is_fetch (hd (segments seg a n @ rest))"
  using assms by (cases n) simp_all

lemma upt_shift: "[a..<a + Suc n] = a # [Suc a..<Suc a + n]"
  by (simp add: upt_rec [of a])

lemma delays_segments:
  assumes seg: "\<And>k. seg k = Fetch url (init k) # ws k"
    and ws: "\<And>k. \<forall>e\<in>set (ws k). \<not> is_fetch e"
    and rest: "rest = [] \<or> is_fetch (hd rest)"
  shows "delays_per_attempt (segments seg a n @ rest) =
    map (\<lambda>k. waits (ws k)) [a..<a + n] @ delays_per_attempt rest"
proof (induction n arbitrary: a)
  case 0
  then show ?case by simp
next
  case (Suc n)
  let ?Y = "segments seg (Suc a) n @ rest"
  have Y: "?Y = [] \<or> is_fetch (hd ?Y)"
    using seg rest by (rule segments_head)
  have tw: "takeWhile (\<lambda>e. \<not> is_fetch e) (ws a @ ?Y) = ws a"
    using ws [of a] Y by (rule takeWhile_segment)
  have sk: "delays_per_attempt (ws a @ ?Y) = delays_per_attempt ?Y"
    using ws [of a] by (rule delays_skip)
  have "segments seg a (Suc n) @ rest = Fetch url (init a) # ws a @ ?Y"
    using seg [of a] by simp
  then have "delays_per_attempt (segments seg a (Suc n) @ rest) =
      waits (takeWhile (\<lambda>e. \<not> is_fetch e) (ws a @ ?Y)) # delays_per_attempt (ws a @ ?Y)"
    by (simp only: delays_per_attempt.simps)
  also have "\<dots> = waits (ws a) # delays_per_attempt ?Y"
    by (simp only: tw sk)
  also have "\<dots> = map (\<lambda>k. waits (ws k)) [a..<a + Suc n] @ delays_per_attempt rest"
    by (simp only: Suc.IH upt_shift list.map append_Cons)
  finally show ?case .
qed

lemma fetches_segments:
  assumes seg: "\<And>k. seg k = Fetch url (init k) # ws k"
    and ws: "\<And>k. \<forall>e\<in>set (ws k). \<not> is_fetch e"
  shows "filter is_fetch (segments seg a n) = map (\<lambda>k. Fetch url (init k)) [a..<a + n]"
proof (induction n arbitrary: a)
  case 0
  then show ?case by simp
next
  case (Suc n)
  have "filter is_fetch (ws a) = []" using ws [of a] by (simp add: filter_empty_conv)
  then have "filter is_fetch (seg a) = [Fetch url (init a)]"
    using seg [of a] by simp
  then show ?case
    by (simp only: segments.simps filter_append Suc.IH upt_shift list.map append_Cons append_Nil)
qed

lemma notify_segments:
  assumes "\<And>k. \<forall>e\<in>set (seg k). \<not> is_notify e"
  shows "filter is_notify (segments seg a n) = []"
proof (induction n arbitrary: a)
  case 0
  then show ?case by simp
next
  case (Suc n)
  have "filter is_notify (seg a) = []" using assms [of a] by (simp add: filter_empty_conv)
  then show ?case by (simp add: Suc.IH)
qed

section \<open>The run of src/lib/helpers.js\<close>

lemma loop_A_run:
  assumes "loop_A cfg env url opts (tokens_A cfg) s = (r, s')"
    and "fetches s = attempts s"
    and "tokenIndex s = index_after (length (tokens_A cfg)) (attempts s)"
    and "attempts s \<le> maxAttempts"
  shows "attempts s \<le> attempts s' \<and> attempts s' \<le> maxAttempts
    \<and> (\<forall>k. attempts s \<le> k \<and> k < attempts s' \<longrightarrow> success_of (env k) = None)
    \<and> tokenIndex s' = index_after (length (tokens_A cfg)) (attempts s')
    \<and> (case r of
          Returns d \<Rightarrow> attempts s' < maxAttempts \<and> success_of (env (attempts s')) = Some d
            \<and> fetches s' = Suc (attempts s')
            \<and> trace s' = trace s @ segments (failed_A cfg url opts) (attempts s) (attempts s' - attempts s)
                 @ [Fetch url (sent_A cfg opts (attempts s'))]
        | ReturnsUndefined \<Rightarrow> False
        | Throws e \<Rightarrow> e = JsError ''Error'' ''All tokens failed after maximum attempts''
            \<and> attempts s' = maxAttempts \<and> fetches s' = attempts s'
            \<and> trace s' = trace s @ segments (failed_A cfg url opts) (attempts s) (attempts s' - attempts s))"
  using assms
proof (induction "maxAttempts - attempts s" arbitrary: s)
  case 0
  then have "\<not> attempts s < maxAttempts" by simp
  with "0.prems"(1) have "r = Throws (JsError ''Error'' ''All tokens failed after maximum attempts'')" "s' = s"
    by (simp_all add: loop_A.simps)
  with 0 show ?case by auto
next
  case (Suc n)
  then have lt: "attempts s < maxAttempts" by simp
  let ?init = "fetch_init opts (headers_A cfg (js_index (tokens_A cfg) (tokenIndex s)))"
  have init: "?init = sent_A cfg opts (attempts s)"
    by (simp add: sent_A_def current_token_def Suc.prems(3))
  obtain x s1 where att: "attempt env url ?init s = (x, s1)"
    by (cases "attempt env url ?init s")
  note fr = attempt_frame [OF att]
  show ?case
  proof (cases x)
    case (Inr d)
    with att lt Suc.prems(1) have "r = Returns d" "s' = s1"
      by (simp_all add: loop_A.simps [of cfg env url opts _ s])
    moreover from att Inr have "success_of (env (fetches s)) = Some d"
      by (simp add: attempt_Inr)
    ultimately show ?thesis
      using fr lt Suc.prems(2,3) init by auto
  next
    case (Inl e)
    let ?s2 = "catch_A (tokens_A cfg) s1"
    from att Inl lt Suc.prems(1) have run: "loop_A cfg env url opts (tokens_A cfg) ?s2 = (r, s')"
      by (simp add: loop_A.simps [of cfg env url opts _ s])
    from att Inl have fail: "success_of (env (attempts s)) = None"
      using attempt_Inl(1) [of env url ?init s e s1] Suc.prems(2) by simp
    have a2: "attempts ?s2 = Suc (attempts s)" and f2: "fetches ?s2 = attempts ?s2"
      and i2: "tokenIndex ?s2 = index_after (length (tokens_A cfg)) (attempts ?s2)"
      and t2: "trace ?s2 = trace s @ failed_A cfg url opts (attempts s)"
      using fr Suc.prems(2,3) init
      by (simp_all add: catch_A_frame index_after_Suc failed_A_def)
    have "n = maxAttempts - attempts ?s2" using Suc.hyps(2) a2 by simp
    from Suc.hyps(1) [OF this run f2 i2] a2 lt
    have IH: "attempts ?s2 \<le> attempts s' \<and> attempts s' \<le> maxAttempts
    \<and> (\<forall>k. attempts ?s2 \<le> k \<and> k < attempts s' \<longrightarrow> success_of (env k) = None)
    \<and> tokenIndex s' = index_after (length (tokens_A cfg)) (attempts s')
    \<and> (case r of
          Returns d \<Rightarrow> attempts s' < maxAttempts \<and> success_of (env (attempts s')) = Some d
            \<and> fetches s' = Suc (attempts s')
            \<and> trace s' = trace ?s2 @ segments (failed_A cfg url opts) (attempts ?s2) (attempts s' - attempts ?s2)
                 @ [Fetch url (sent_A cfg opts (attempts s'))]
        | ReturnsUndefined \<Rightarrow> False
        | Throws e \<Rightarrow> e = JsError ''Error'' ''All tokens failed after maximum attempts''
            \<and> attempts s' = maxAttempts \<and> fetches s' = attempts s'
            \<and> trace s' = trace ?s2 @ segments (failed_A cfg url opts) (attempts ?s2) (attempts s' - attempts ?s2))"
      by simp
    then have le: "Suc (attempts s) \<le> attempts s'" using a2 by simp
    then have diff: "segments (failed_A cfg url opts) (attempts s) (attempts s' - attempts s) =
        failed_A cfg url opts (attempts s)
          @ segments (failed_A cfg url opts) (Suc (attempts s)) (attempts s' - Suc (attempts s))"
      by (intro segments_step) simp
    have all: "\<forall>k. attempts s \<le> k \<and> k < attempts s' \<longrightarrow> success_of (env k) = None"
    proof (intro allI impI)
      fix k assume "attempts s \<le> k \<and> k < attempts s'"
      then consider "k = attempts s" | "attempts ?s2 \<le> k \<and> k < attempts s'" using a2 by force
      then show "success_of (env k) = None" using fail IH by cases auto
    qed
    from IH le all diff show ?thesis
      by (cases r) (simp_all add: a2 t2)
  qed
qed

lemma request_A_run:
  assumes "request_A cfg env url opts = (r, s)"
  shows "attempts s \<le> maxAttempts
    \<and> (\<forall>k. k < attempts s \<longrightarrow> success_of (env k) = None)
    \<and> tokenIndex s = index_after (length (tokens_A cfg)) (attempts s)
    \<and> (case r of
          Returns d \<Rightarrow> attempts s < maxAttempts \<and> success_of (env (attempts s)) = Some d
            \<and> fetches s = Suc (attempts s)
            \<and> trace s = segments (failed_A cfg url opts) 0 (attempts s)
                 @ [Fetch url (sent_A cfg opts (attempts s))]
        | ReturnsUndefined \<Rightarrow> False
        | Throws e \<Rightarrow> e = JsError ''Error'' ''All tokens failed after maximum attempts''
            \<and> attempts s = maxAttempts \<and> fetches s = attempts s
            \<and> trace s = segments (failed_A cfg url opts) 0 (attempts s))"
proof -
  have "loop_A cfg env url opts (tokens_A cfg) initial = (r, s)"
    using assms by (simp add: request_A_def)
  from loop_A_run [OF this] show ?thesis
    by (auto simp: initial_def index_after_0 split: result.splits)
qed

section \<open>The run of src/unnamed/part_000\<close>

lemma tokens_B_Boolean: "x \<in> set (tokens_B cfg) \<Longrightarrow> Boolean x"
  unfolding tokens_B_def set_filter by blast

lemma current_token_Boolean:
  assumes "\<And>x. x \<in> set tokens \<Longrightarrow> Boolean x" and "tokens \<noteq> []"
  shows "Boolean (js_index tokens (index_after (length tokens) k))"
  using assms by (simp add: index_after_mod)

lemma loop_B_no_tokens:
  assumes "attempts s < maxAttempts"
  shows "\<exists>s'. loop_B fuel describe env url opts [] s = OutOfFuel s'
    \<and> trace s' = trace s \<and> fetches s' = fetches s \<and> attempts s' = attempts s"
  using assms
proof (induction fuel arbitrary: s)
  case 0
  then show ?case by simp
next
  case (Suc fuel)
  have "js_index [] (tokenIndex s) = Undefined" by (cases "tokenIndex s") simp_all
  with Suc.prems Suc.IH [of "s\<lparr>tokenIndex := next_index (tokenIndex s) 0\<rparr>"]
  show ?case by simp
qed

lemma loop_B_fuel_mono:
  assumes "loop_B fuel describe env url opts tokens s = Finished r s'"
  shows "loop_B (fuel + m) describe env url opts tokens s = Finished r s'"
  using assms
proof (induction fuel arbitrary: s)
  case 0
  then show ?case by simp
next
  case (Suc fuel)
  then show ?case
    by (auto simp: Let_def split: if_splits prod.splits sum.splits)
qed


lemma extend_failed:
  assumes "success_of (env a) = None"
    and "\<forall>k. Suc a \<le> k \<and> k < b \<longrightarrow> success_of (env k) = None"
  shows "\<forall>k. a \<le> k \<and> k < b \<longrightarrow> success_of (env k) = None"
proof (intro allI impI)
  fix k assume "a \<le> k \<and> k < b"
  then consider "k = a" | "Suc a \<le> k \<and> k < b" by force
  then show "success_of (env k) = None" using assms by cases auto
qed

lemma loop_B_run:
  assumes "loop_B fuel describe env url opts (tokens_B cfg) s = R"
    and "tokens_B cfg \<noteq> []"
    and "fetches s = attempts s"
    and "tokenIndex s = index_after (length (tokens_B cfg)) (attempts s)"
    and "attempts s < maxAttempts"
    and "response s = last_status env (fetches s)"
  shows "(case R of
      Finished r s' \<Rightarrow>
        attempts s \<le> attempts s' \<and> attempts s' \<le> maxAttempts
        \<and> (\<forall>k. attempts s \<le> k \<and> k < attempts s' \<longrightarrow> success_of (env k) = None)
        \<and> response s' = last_status env (fetches s')
        \<and> tokenIndex s' = index_after (length (tokens_B cfg)) (attempts s')
        \<and> (case r of
              Returns d \<Rightarrow> attempts s' < maxAttempts \<and> success_of (env (attempts s')) = Some d
                \<and> fetches s' = Suc (attempts s')
                \<and> trace s' = trace s @ segments (failed_B cfg url opts) (attempts s) (attempts s' - attempts s)
                     @ [Fetch url (sent_B cfg opts (attempts s'))]
            | ReturnsUndefined \<Rightarrow> False
            | Throws e \<Rightarrow> attempts s' = maxAttempts \<and> fetches s' = maxAttempts
                \<and> e = exhausted_error describe (response s') (data s') (failure_of (env (maxAttempts - 1)))
                \<and> trace s' = trace s
                     @ segments (failed_B cfg url opts) (attempts s) (maxAttempts - 1 - attempts s)
                     @ [Fetch url (sent_B cfg opts (maxAttempts - 1)), Notify (notify_message (response s'))])
    | OutOfFuel s' \<Rightarrow>
        fuel < maxAttempts - attempts s \<and> attempts s' = attempts s + fuel \<and> fetches s' = attempts s'
        \<and> (\<forall>k. attempts s \<le> k \<and> k < attempts s' \<longrightarrow> success_of (env k) = None)
        \<and> trace s' = trace s @ segments (failed_B cfg url opts) (attempts s) fuel)"
  using assms
proof (induction fuel arbitrary: s R)
  case 0
  then show ?case by auto
next
  case (Suc fuel)
  note lt = Suc.prems(5)
  let ?tok = "js_index (tokens_B cfg) (tokenIndex s)"
  have tok: "Boolean ?tok"
    using current_token_Boolean [of "tokens_B cfg"] tokens_B_Boolean Suc.prems(2,4) by simp
  let ?init = "fetch_init opts (headers_B ?tok)"
  have init: "?init = sent_B cfg opts (attempts s)"
    by (simp add: sent_B_def current_token_def Suc.prems(4))
  obtain x s1 where att: "attempt env url ?init s = (x, s1)"
    by (cases "attempt env url ?init s")
  note fr = attempt_frame [OF att]
  have resp1: "response s1 = last_status env (fetches s1)"
    using att Suc.prems(6) by (rule attempt_response)
  show ?case
  proof (cases x)
    case (Inr d)
    with att lt tok Suc.prems(1) have "R = Finished (Returns d) s1"
      by simp
    moreover from att Inr have "success_of (env (fetches s)) = Some d"
      by (simp add: attempt_Inr)
    ultimately show ?thesis
      using fr lt Suc.prems(3,4) init resp1 by auto
  next
    case (Inl e)
    from att Inl have fail: "success_of (env (attempts s)) = None"
      and e: "e = failure_of (env (attempts s))"
      using attempt_Inl [of env url ?init s e s1] Suc.prems(3) by simp_all
    define s2 where "s2 = s1\<lparr>attempts := Suc (attempts s1),
      tokenIndex := next_index (tokenIndex s1) (length (tokens_B cfg))\<rparr>"
    have a2: "attempts s2 = Suc (attempts s)" and f2: "fetches s2 = Suc (attempts s)"
      and i2: "tokenIndex s2 = index_after (length (tokens_B cfg)) (Suc (attempts s))"
      and t2: "trace s2 = trace s @ [Fetch url (sent_B cfg opts (attempts s))]"
      and r2: "response s2 = last_status env (Suc (attempts s))"
      and d2: "data s2 = data s1"
      using fr Suc.prems(3,4) init resp1
      by (simp_all add: s2_def index_after_Suc)
    show ?thesis
    proof (cases "maxAttempts \<le> Suc (attempts s)")
      case True
      define s3 where "s3 = s2\<lparr>trace := trace s2 @ [Notify (notify_message (response s2))]\<rparr>"
      from att Inl lt tok Suc.prems(1) True fr
      have R: "R = Finished (Throws (exhausted_error describe (response s3) (data s3) e)) s3"
        by (simp add: s2_def s3_def Let_def)
      from True lt have last: "attempts s = maxAttempts - 1" by simp
      then have "maxAttempts - 1 - attempts s = 0" by simp
      moreover have "\<forall>k. attempts s \<le> k \<and> k < attempts s2 \<longrightarrow> success_of (env k) = None"
        using fail a2 by (auto simp: less_Suc_eq_le dest: le_antisym)
      ultimately show ?thesis
        using R last lt e a2 f2 i2 t2 r2 by (auto simp: s3_def)
    next
      case False
      define s4 where "s4 = s2\<lparr>trace := trace s2 @ [Wait 5000]\<rparr>"
      from att Inl lt tok Suc.prems(1) False fr
      have run: "loop_B fuel describe env url opts (tokens_B cfg) s4 = R"
        by (simp add: s2_def s4_def Let_def)
      have a4: "attempts s4 = Suc (attempts s)" and f4: "fetches s4 = attempts s4"
        and i4: "tokenIndex s4 = index_after (length (tokens_B cfg)) (attempts s4)"
        and t4: "trace s4 = trace s @ failed_B cfg url opts (attempts s)"
        and r4: "response s4 = last_status env (fetches s4)"
        and l4: "attempts s4 < maxAttempts"
        using a2 f2 i2 t2 r2 False by (simp_all add: s4_def failed_B_def)
      note IH = Suc.IH [OF run Suc.prems(2) f4 i4 l4 r4]
      show ?thesis
      proof (cases R)
        case (OutOfFuel s')
        with IH have "\<forall>k. Suc (attempts s) \<le> k \<and> k < attempts s' \<longrightarrow> success_of (env k) = None"
          by (simp add: a4)
        from extend_failed [OF fail this] IH OutOfFuel show ?thesis
          by (auto simp: a4 t4)
      next
        case (Finished r s')
        with IH have le: "Suc (attempts s) \<le> attempts s'" by (simp add: a4)
        from IH Finished have "\<forall>k. Suc (attempts s) \<le> k \<and> k < attempts s' \<longrightarrow> success_of (env k) = None"
          by (simp add: a4)
        note all = extend_failed [OF fail this]
        have diff: "segments (failed_B cfg url opts) (attempts s) (attempts s' - attempts s) =
            failed_B cfg url opts (attempts s)
              @ segments (failed_B cfg url opts) (Suc (attempts s)) (attempts s' - Suc (attempts s))"
          using le by (intro segments_step) simp
        have diff': "segments (failed_B cfg url opts) (attempts s) (maxAttempts - 1 - attempts s) =
            failed_B cfg url opts (attempts s)
              @ segments (failed_B cfg url opts) (Suc (attempts s)) (maxAttempts - 1 - Suc (attempts s))"
          using False by (intro segments_step) simp
        from IH Finished le all diff diff' show ?thesis
          by (cases r) (simp_all add: a4 t4)
      qed
    qed
  qed
qed

lemma request_B_run:
  assumes "request_B fuel describe cfg env url opts = R" and "tokens_B cfg \<noteq> []"
  shows "(case R of
      Finished r s' \<Rightarrow>
        attempts s' \<le> maxAttempts
        \<and> (\<forall>k. k < attempts s' \<longrightarrow> success_of (env k) = None)
        \<and> response s' = last_status env (fetches s')
        \<and> tokenIndex s' = index_after (length (tokens_B cfg)) (attempts s')
        \<and> (case r of
              Returns d \<Rightarrow> attempts s' < maxAttempts \<and> success_of (env (attempts s')) = Some d
                \<and> fetches s' = Suc (attempts s')
                \<and> trace s' = segments (failed_B cfg url opts) 0 (attempts s')
                     @ [Fetch url (sent_B cfg opts (attempts s'))]
            | ReturnsUndefined \<Rightarrow> False
            | Throws e \<Rightarrow> attempts s' = maxAttempts \<and> fetches s' = maxAttempts
                \<and> e = exhausted_error describe (response s') (data s') (failure_of (env (maxAttempts - 1)))
                \<and> trace s' = segments (failed_B cfg url opts) 0 (maxAttempts - 1)
                     @ [Fetch url (sent_B cfg opts (maxAttempts - 1)), Notify (notify_message (response s'))])
    | OutOfFuel s' \<Rightarrow>
        fuel < maxAttempts \<and> attempts s' = fuel \<and> fetches s' = attempts s'
        \<and> (\<forall>k. k < attempts s' \<longrightarrow> success_of (env k) = None)
        \<and> trace s' = segments (failed_B cfg url opts) 0 fuel)"
proof -
  have run: "loop_B fuel describe env url opts (tokens_B cfg) initial = R"
    using assms by (simp add: request_B_def)
  have "attempts (initial :: 'a state) < maxAttempts"
    by (simp add: initial_def maxAttempts_def)
  from loop_B_run [OF run assms(2) _ _ this] show ?thesis
    by (auto simp: initial_def index_after_0 split: result.splits run.splits)
qed

lemma request_B_no_tokens:
  assumes "tokens_B cfg = []"
  shows "\<exists>s. request_B fuel describe cfg env url opts = OutOfFuel s \<and> trace s = [] \<and> fetches s = 0
    \<and> attempts s = 0"
proof -
  have "attempts (initial :: 'a state) < maxAttempts"
    by (simp add: initial_def maxAttempts_def)
  from loop_B_no_tokens [OF this, of fuel describe env url opts] show ?thesis
    by (simp add: request_B_def assms initial_def)
qed

lemma failed_A_shape:
  "failed_A cfg url opts k = Fetch url (sent_A cfg opts k)
     # (if index_after (length (tokens_A cfg)) (Suc k) = Num 0 then [Wait 5000] else [])"
  "\<forall>e\<in>set (if index_after (length (tokens_A cfg)) (Suc k) = Num 0 then [Wait 5000] else []). \<not> is_fetch e"
  by (simp_all add: failed_A_def)

lemma failed_B_shape:
  "failed_B cfg url opts k = Fetch url (sent_B cfg opts k) # [Wait 5000]"
  "\<forall>e\<in>set [Wait 5000]. \<not> is_fetch e"
  by (simp_all add: failed_B_def)

lemma request_A_delays:
  "backoff_once_per_cycle env (length (tokens_A cfg)) (trace (snd (request_A cfg env url opts)))"
proof -
  obtain r s where run: "request_A cfg env url opts = (r, s)"
    by (cases "request_A cfg env url opts")
  note R = request_A_run [OF run]
  let ?N = "length (tokens_A cfg)"
  let ?w = "\<lambda>k. if index_after ?N (Suc k) = Num 0 then [Wait 5000] else []"
  let ?g = "\<lambda>k. if success_of (env k) = None \<and> index_after ?N (Suc k) = Num 0 then [5000::nat] else []"
  have failed: "map (\<lambda>k. waits (?w k)) [0..<0 + attempts s] = map ?g [0..<attempts s]"
    using R by auto
  have del: "delays_per_attempt (segments (failed_A cfg url opts) 0 (attempts s) @ rest) =
      map ?g [0..<attempts s] @ delays_per_attempt rest"
    if "rest = [] \<or> is_fetch (hd rest)" for rest
    using delays_segments [of "failed_A cfg url opts" url "sent_A cfg opts" ?w rest 0 "attempts s",
        OF failed_A_shape that]
    by (simp only: failed)
  have fet: "filter is_fetch (segments (failed_A cfg url opts) 0 (attempts s)) =
      map (\<lambda>k. Fetch url (sent_A cfg opts k)) [0..<attempts s]"
    using fetches_segments [of "failed_A cfg url opts" url "sent_A cfg opts" ?w 0 "attempts s",
        OF failed_A_shape]
    by simp
  show ?thesis
  proof (cases r)
    case (Returns d)
    with R have tr: "trace s = segments (failed_A cfg url opts) 0 (attempts s)
        @ [Fetch url (sent_A cfg opts (attempts s))]"
      and ok: "success_of (env (attempts s)) = Some d" by simp_all
    have "delays_per_attempt (trace s) = map ?g [0..<attempts s] @ [[]]"
      unfolding tr using del [of "[Fetch url (sent_A cfg opts (attempts s))]"] by simp
    moreover have "length (filter is_fetch (trace s)) = Suc (attempts s)"
      unfolding tr by (simp add: fet)
    ultimately show ?thesis
      using ok by (simp add: backoff_once_per_cycle_def run)
  next
    case ReturnsUndefined
    with R show ?thesis by simp
  next
    case (Throws e)
    with R have tr: "trace s = segments (failed_A cfg url opts) 0 (attempts s)" by simp
    have "delays_per_attempt (trace s) = map ?g [0..<attempts s]"
      unfolding tr using del [of "[]"] by simp
    moreover have "length (filter is_fetch (trace s)) = attempts s"
      unfolding tr by (simp add: fet)
    ultimately show ?thesis
      by (simp add: backoff_once_per_cycle_def run)
  qed
qed


lemma request_A_fetch_events:
  assumes "request_A cfg env url opts = (r, s)"
  shows "filter is_fetch (trace s) = map (\<lambda>k. Fetch url (sent_A cfg opts k)) [0..<fetches s]"
proof -
  note R = request_A_run [OF assms]
  let ?w = "\<lambda>k. if index_after (length (tokens_A cfg)) (Suc k) = Num 0 then [Wait 5000] else []"
  have fet: "filter is_fetch (segments (failed_A cfg url opts) 0 (attempts s)) =
      map (\<lambda>k. Fetch url (sent_A cfg opts k)) [0..<attempts s]"
    using fetches_segments [of "failed_A cfg url opts" url "sent_A cfg opts" ?w 0 "attempts s",
        OF failed_A_shape]
    by simp
  from R fet show ?thesis
    by (cases r) simp_all
qed

lemma request_A_no_notify:
  "filter is_notify (trace (snd (request_A cfg env url opts))) = []"
proof -
  obtain r s where run: "request_A cfg env url opts = (r, s)"
    by (cases "request_A cfg env url opts")
  note R = request_A_run [OF run]
  have "filter is_notify (segments (failed_A cfg url opts) 0 (attempts s)) = []"
    by (rule notify_segments) (simp add: failed_A_def)
  with R show ?thesis
    by (cases r) (simp_all add: run)
qed

lemma request_B_trace_cases:
  fixes env :: "nat \<Rightarrow> 'd outcome"
  assumes "final_state (request_B fuel describe cfg env url opts) = s"
  obtains
    (none) "tokens_B cfg = []" "request_B fuel describe cfg env url opts = OutOfFuel s"
      "trace s = []" "fetches s = 0" "attempts s = 0"
  | (returned) d where "request_B fuel describe cfg env url opts = Finished (Returns d) s"
      "attempts s < maxAttempts" "\<forall>k<attempts s. success_of (env k) = None"
      "success_of (env (attempts s)) = Some d" "fetches s = Suc (attempts s)"
      "tokenIndex s = index_after (length (tokens_B cfg)) (attempts s)"
      "trace s = segments (failed_B cfg url opts) 0 (attempts s)
         @ [Fetch url (sent_B cfg opts (attempts s))]"
  | (thrown) e where "request_B fuel describe cfg env url opts = Finished (Throws e) s"
      "attempts s = maxAttempts" "\<forall>k<maxAttempts. success_of (env k) = None"
      "fetches s = maxAttempts" "response s = last_status env maxAttempts"
      "e = exhausted_error describe (response s) (data s) (failure_of (env (maxAttempts - 1)))"
      "trace s = segments (failed_B cfg url opts) 0 (maxAttempts - 1)
         @ [Fetch url (sent_B cfg opts (maxAttempts - 1)), Notify (notify_message (response s))]"
  | (cut) "request_B fuel describe cfg env url opts = OutOfFuel s" "tokens_B cfg \<noteq> []"
      "attempts s = fuel" "attempts s < maxAttempts" "\<forall>k<attempts s. success_of (env k) = None"
      "fetches s = attempts s"
      "trace s = segments (failed_B cfg url opts) 0 (attempts s)"
proof (cases "tokens_B cfg = []")
  case True
  from request_B_no_tokens [OF True, of fuel describe env url opts] assms True
  show ?thesis by (auto intro: none)
next
  case False
  obtain R where run: "request_B fuel describe cfg env url opts = R" by simp
  note R = request_B_run [OF run False]
  show ?thesis
  proof (cases R)
    case (OutOfFuel s')
    with R assms False run show ?thesis by (auto intro: cut)
  next
    case (Finished r s')
    with assms run have s': "s' = s" by simp
    show ?thesis
    proof (cases r)
      case (Returns d)
      with R Finished s' run show ?thesis by (auto intro: returned)
    next
      case ReturnsUndefined
      with R Finished show ?thesis by simp
    next
      case (Throws e)
      with R Finished s' run show ?thesis by (auto intro: thrown)
    qed
  qed
qed


lemma segments_B_delays:
  assumes "rest = [] \<or> is_fetch (hd rest)"
  shows "delays_per_attempt (segments (failed_B cfg url opts) 0 n @ rest) =
    map (\<lambda>k. [5000]) [0..<n] @ delays_per_attempt rest"
  using delays_segments [of "failed_B cfg url opts" url "sent_B cfg opts" "\<lambda>k. [Wait 5000]" rest 0 n,
      OF failed_B_shape assms]
  by simp

lemma segments_B_fetches:
  "filter is_fetch (segments (failed_B cfg url opts) 0 n) =
    map (\<lambda>k. Fetch url (sent_B cfg opts k)) [0..<n]"
  using fetches_segments [of "failed_B cfg url opts" url "sent_B cfg opts" "\<lambda>k. [Wait 5000]" 0 n,
      OF failed_B_shape]
  by simp

lemma request_B_fetch_events:
  assumes "final_state (request_B fuel describe cfg env url opts) = s"
  shows "filter is_fetch (trace s) = map (\<lambda>k. Fetch url (sent_B cfg opts k)) [0..<fetches s]"
  using assms
proof (cases rule: request_B_trace_cases)
  case none
  then show ?thesis by simp
next
  case (returned d)
  then show ?thesis by (simp add: segments_B_fetches)
next
  case (thrown e)
  have "0 < maxAttempts" by (simp add: maxAttempts_def)
  then have "[0..<maxAttempts] = [0..<maxAttempts - 1] @ [maxAttempts - 1]"
    by (metis Suc_diff_1 upt_Suc_append zero_le)
  with thrown show ?thesis by (simp add: segments_B_fetches)
next
  case cut
  then show ?thesis by (simp add: segments_B_fetches)
qed

lemma request_B_delays:
  "backoff_after_failure env (trace (final_state (request_B fuel describe cfg env url opts)))"
proof -
  obtain s where s: "final_state (request_B fuel describe cfg env url opts) = s" by simp
  let ?g = "\<lambda>k. if success_of (env k) = None \<and> Suc k < maxAttempts then [5000::nat] else []"
  have len: "length (filter is_fetch (trace s)) = fetches s"
    using request_B_fetch_events [OF s] by simp
  have "delays_per_attempt (trace s) = map ?g [0..<fetches s]"
    using s
  proof (cases rule: request_B_trace_cases)
    case none
    then show ?thesis by simp
  next
    case (returned d)
    then have "map (\<lambda>k. [5000]) [0..<attempts s] = map ?g [0..<attempts s]" by auto
    with returned show ?thesis
      using segments_B_delays [of "[Fetch url (sent_B cfg opts (attempts s))]" cfg url opts "attempts s"]
      by simp
  next
    case (thrown e)
    have pos: "0 < maxAttempts" by (simp add: maxAttempts_def)
    then have upt: "[0..<maxAttempts] = [0..<maxAttempts - 1] @ [maxAttempts - 1]"
      by (metis Suc_diff_1 upt_Suc_append zero_le)
    from pos have last: "\<not> Suc (maxAttempts - 1) < maxAttempts" by simp
    from thrown have "map (\<lambda>k. [5000]) [0..<maxAttempts - 1] = map ?g [0..<maxAttempts - 1]" by auto
    with thrown upt last show ?thesis
      using segments_B_delays [of "[Fetch url (sent_B cfg opts (maxAttempts - 1)),
          Notify (notify_message (response s))]" cfg url opts "maxAttempts - 1"]
      by simp
  next
    case cut
    then have "map (\<lambda>k. [5000]) [0..<attempts s] = map ?g [0..<attempts s]" by auto
    with cut show ?thesis
      using segments_B_delays [of "[]" cfg url opts "attempts s"] by simp
  qed
  with len s show ?thesis by (simp add: backoff_after_failure_def)
qed

lemma wraps_iff_multiple: "(index_after n (Suc k) = Num 0) = (n dvd Suc k)"
proof (cases "n = 0")
  case True
  have "index_after 0 (Suc k) = NaN"
    by (induction k) (simp_all add: index_after_Suc index_after_0)
  with True show ?thesis by simp
next
  case False
  then show ?thesis by (simp add: index_after_mod dvd_eq_mod_eq_0)
qed

lemma segments_B_no_notify: "filter is_notify (segments (failed_B cfg url opts) a n) = []"
  by (rule notify_segments) (simp add: failed_B_def)

lemma request_B_exhausted:
  assumes "request_B fuel describe cfg env url opts = Finished (Throws e) s"
  shows "notifies_exhaustion env (trace s)" and "fetches s = maxAttempts"
    and "\<forall>k<maxAttempts. success_of (env k) = None"
    and "e = exhausted_error describe (last_status env maxAttempts) (data s) (failure_of (env (maxAttempts - 1)))"
proof -
  have fs: "final_state (request_B fuel describe cfg env url opts) = s"
    using assms by simp
  have len: "length (filter is_fetch (trace s)) = fetches s"
    using request_B_fetch_events [OF fs] by simp
  from fs have "notifies_exhaustion env (trace s) \<and> fetches s = maxAttempts
    \<and> (\<forall>k<maxAttempts. success_of (env k) = None)
    \<and> e = exhausted_error describe (last_status env maxAttempts) (data s) (failure_of (env (maxAttempts - 1)))"
  proof (cases rule: request_B_trace_cases)
    case none
    with assms show ?thesis by simp
  next
    case (returned d)
    with assms show ?thesis by simp
  next
    case (thrown e')
    with assms len show ?thesis
      by (simp add: notifies_exhaustion_def segments_B_no_notify butlast_append)
  next
    case cut
    with assms show ?thesis by simp
  qed
  then show "notifies_exhaustion env (trace s)" and "fetches s = maxAttempts"
    and "\<forall>k<maxAttempts. success_of (env k) = None"
    and "e = exhausted_error describe (last_status env maxAttempts) (data s) (failure_of (env (maxAttempts - 1)))"
    by simp_all
qed

lemma request_B_all_fail:
  assumes "tokens_B cfg \<noteq> []" and "\<forall>k<maxAttempts. success_of (env k) = None"
  shows "\<exists>e s. request_B (maxAttempts + m) describe cfg env url opts = Finished (Throws e) s"
proof -
  obtain s where fs: "final_state (request_B (maxAttempts + m) describe cfg env url opts) = s" by simp
  then show ?thesis
  proof (cases rule: request_B_trace_cases)
    case none
    with assms show ?thesis by simp
  next
    case (returned d)
    with assms show ?thesis by auto
  next
    case (thrown e)
    then show ?thesis by auto
  next
    case cut
    then show ?thesis by simp
  qed
qed

lemma request_A_all_fail:
  assumes "\<forall>k<maxAttempts. success_of (env k) = None"
  shows "fst (request_A cfg env url opts) = Throws (JsError ''Error'' ''All tokens failed after maximum attempts'')"
proof -
  obtain r s where run: "request_A cfg env url opts = (r, s)"
    by (cases "request_A cfg env url opts")
  note R = request_A_run [OF run]
  with assms show ?thesis
    by (cases r) (auto simp: run)
qed

lemma always_fails_never_succeeds: "success_of (always_fails k) = None"
  by (simp add: always_fails_def)

lemma last_status_always_fails: "last_status always_fails n = (if n = 0 then None else Some 503)"
  by (cases n) (simp_all add: always_fails_def)

lemma decimal_503: "decimal 503 = ''503''"
  by (simp add: decimal.simps)

lemma request_A_first_fetch:
  "trace (snd (request_A cfg env url opts)) \<noteq> []
   \<and> hd (trace (snd (request_A cfg env url opts))) = Fetch url (sent_A cfg opts 0)
   \<and> 0 < fetches (snd (request_A cfg env url opts))"
proof -
  obtain r s where run: "request_A cfg env url opts = (r, s)"
    by (cases "request_A cfg env url opts")
  note R = request_A_run [OF run]
  have seg: "segments (failed_A cfg url opts) 0 n @ rest \<noteq> []
      \<and> hd (segments (failed_A cfg url opts) 0 n @ rest) = Fetch url (sent_A cfg opts 0)"
    if "0 < n" for n rest
    using that by (cases n) (simp_all add: failed_A_def)
  show ?thesis
  proof (cases r)
    case (Returns d)
    with R show ?thesis
      using seg [of "attempts s" "[Fetch url (sent_A cfg opts (attempts s))]"]
      by (cases "attempts s = 0") (simp_all add: run)
  next
    case ReturnsUndefined
    with R show ?thesis by simp
  next
    case (Throws e)
    with R show ?thesis
      using seg [of "attempts s" "[]"] by (simp add: run maxAttempts_def)
  qed
qed

lemma request_A_bounded:
  "fetches (snd (request_A cfg env url opts)) \<le> maxAttempts
   \<and> (if attempts (snd (request_A cfg env url opts)) = maxAttempts
       then fst (request_A cfg env url opts)
              = Throws (JsError ''Error'' ''All tokens failed after maximum attempts'')
            \<and> fetches (snd (request_A cfg env url opts)) = maxAttempts
       else \<exists>d. fst (request_A cfg env url opts) = Returns d)"
proof -
  obtain r s where run: "request_A cfg env url opts = (r, s)"
    by (cases "request_A cfg env url opts")
  note R = request_A_run [OF run]
  then show ?thesis
    by (cases r) (auto simp: run)
qed

lemma request_B_bounded:
  assumes "tokens_B cfg \<noteq> []"
  shows "\<exists>r s. (\<forall>m. request_B (maxAttempts + m) describe cfg env url opts = Finished r s)
     \<and> fetches s \<le> maxAttempts
     \<and> (if attempts s = maxAttempts then \<exists>e. r = Throws e else \<exists>d. r = Returns d)"
proof -
  obtain s where fs: "final_state (request_B maxAttempts describe cfg env url opts) = s" by simp
  then have "\<exists>r. request_B maxAttempts describe cfg env url opts = Finished r s
     \<and> fetches s \<le> maxAttempts
     \<and> (if attempts s = maxAttempts then \<exists>e. r = Throws e else \<exists>d. r = Returns d)"
  proof (cases rule: request_B_trace_cases)
    case none
    with assms show ?thesis by simp
  next
    case (returned d)
    then show ?thesis by auto
  next
    case (thrown e)
    then show ?thesis by auto
  next
    case cut
    then show ?thesis by simp
  qed
  then obtain r where run: "request_B maxAttempts describe cfg env url opts = Finished r s"
    and rest: "fetches s \<le> maxAttempts"
      "if attempts s = maxAttempts then \<exists>e. r = Throws e else \<exists>d. r = Returns d"
    by blast
  have "request_B (maxAttempts + m) describe cfg env url opts = Finished r s" for m
    using run unfolding request_B_def by (rule loop_B_fuel_mono)
  with rest show ?thesis by blast
qed

lemma sent_A_no_credentials:
  "the (opt_headers (sent_A no_credentials opts 0)) ''Authorization'' = Some (Str ''Bearer undefined'')"
  by (simp add: sent_A_def current_token_def tokens_A_def no_credentials_def index_after_0
      fetch_init_def headers_A_def)

lemma request_A_success:
  assumes "request_A cfg env url opts = (r, s)" and "k < fetches s" and "success_of (env k) = Some d"
  shows "r = Returns d \<and> fetches s = Suc k \<and> Suc k \<le> maxAttempts \<and> attempts s = k
    \<and> tokenIndex s = index_after (length (tokens_A cfg)) k
    \<and> trace s = segments (failed_A cfg url opts) 0 k @ [Fetch url (sent_A cfg opts k)]"
proof -
  note R = request_A_run [OF assms(1)]
  show ?thesis
  proof (cases r)
    case (Returns d')
    with R have f: "fetches s = Suc (attempts s)" by simp
    with assms(2) have "k \<le> attempts s" by simp
    moreover have "\<not> k < attempts s" using R assms(3) by auto
    ultimately have "k = attempts s" by simp
    with R Returns assms(3) show ?thesis by simp
  next
    case ReturnsUndefined
    with R show ?thesis by simp
  next
    case (Throws e)
    with R assms(2,3) show ?thesis by auto
  qed
qed

lemma request_B_success:
  assumes "final_state (request_B fuel describe cfg env url opts) = s"
    and "k < fetches s" and "success_of (env k) = Some d"
  shows "request_B fuel describe cfg env url opts = Finished (Returns d) s
    \<and> fetches s = Suc k \<and> Suc k \<le> maxAttempts \<and> attempts s = k
    \<and> tokenIndex s = index_after (length (tokens_B cfg)) k
    \<and> trace s = segments (failed_B cfg url opts) 0 k @ [Fetch url (sent_B cfg opts k)]"
  using assms(1)
proof (cases rule: request_B_trace_cases)
  case none
  with assms(2) show ?thesis by simp
next
  case (returned d')
  with assms(2) have "k \<le> attempts s" by simp
  moreover have "\<not> k < attempts s" using returned assms(3) by auto
  ultimately have "k = attempts s" by simp
  with returned assms(3) show ?thesis by simp
next
  case (thrown e)
  with assms(2,3) show ?thesis by auto
next
  case cut
  with assms(2,3) show ?thesis by auto
qed

lemma headers_B_override: "authorization_overrides opts tok (fetch_init opts (headers_B tok))"
  by (auto simp: authorization_overrides_def fetch_init_def headers_B_def map_add_def fun_eq_iff)

lemma headers_A_override:
  "if tok = API_KEY cfg
   then authorization_and_key_override cfg opts tok (fetch_init opts (headers_A cfg tok))
   else authorization_overrides opts tok (fetch_init opts (headers_A cfg tok))"
  by (auto simp: authorization_overrides_def authorization_and_key_override_def fetch_init_def
      headers_A_def map_add_def fun_eq_iff)

lemma single_token_both:
  assumes "tokens_A cfg = [t]"
  shows "tokens_B cfg = [t]"
  using assms by (auto simp: tokens_A_def tokens_B_def split: if_splits)

lemma tokens_empty_both: "(tokens_B cfg = []) = (tokens_A cfg = [])"
  by (auto simp: tokens_A_def tokens_B_def split: if_splits)

lemma single_token_same_effects:
  assumes "tokens_A cfg = [t]" and "t \<noteq> API_KEY cfg"
  shows "sent_A cfg opts k = sent_B cfg opts k" and "failed_A cfg url opts k = failed_B cfg url opts k"
proof -
  from assms(1) have B: "tokens_B cfg = [t]" by (rule single_token_both)
  have idx: "index_after (Suc 0) j = Num 0" for j
    by (simp add: index_after_mod)
  have "headers_A cfg t = headers_B t"
    using assms(2) by (simp add: headers_A_def headers_B_def)
  then show sent: "sent_A cfg opts k = sent_B cfg opts k"
    by (simp add: sent_A_def sent_B_def current_token_def assms(1) B idx)
  show "failed_A cfg url opts k = failed_B cfg url opts k"
    by (simp add: failed_A_def failed_B_def sent assms(1) idx)
qed

lemma first_success_agree:
  fixes env :: "nat \<Rightarrow> 'd outcome"
  assumes "tokens_A cfg \<noteq> []" and "k < maxAttempts" and "success_of (env k) = Some d0"
  shows "\<exists>d sA sB. request_A cfg env url opts = (Returns d, sA)
    \<and> request_B maxAttempts describe cfg env url opts = Finished (Returns d) sB
    \<and> attempts sA = attempts sB \<and> fetches sA = fetches sB
    \<and> trace sA = segments (failed_A cfg url opts) 0 (attempts sA) @ [Fetch url (sent_A cfg opts (attempts sA))]
    \<and> trace sB = segments (failed_B cfg url opts) 0 (attempts sA) @ [Fetch url (sent_B cfg opts (attempts sA))]"
proof -
  obtain r sA where runA: "request_A cfg env url opts = (r, sA)"
    by (cases "request_A cfg env url opts")
  note RA = request_A_run [OF runA]
  have "\<exists>d. r = Returns d"
  proof (cases r)
    case (Throws e)
    with RA assms(2,3) show ?thesis by auto
  next
    case ReturnsUndefined
    with RA show ?thesis by simp
  qed simp
  then obtain d where r: "r = Returns d" by blast
  with RA have A: "\<forall>j<attempts sA. success_of (env j) = None" "success_of (env (attempts sA)) = Some d"
    "fetches sA = Suc (attempts sA)"
    "trace sA = segments (failed_A cfg url opts) 0 (attempts sA) @ [Fetch url (sent_A cfg opts (attempts sA))]"
    by simp_all
  obtain sB where fs: "final_state (request_B maxAttempts describe cfg env url opts) = sB" by simp
  then show ?thesis
  proof (cases rule: request_B_trace_cases)
    case none
    with assms(1) show ?thesis by (simp add: tokens_empty_both)
  next
    case (returned d')
    have "attempts sA = attempts sB"
    proof (rule ccontr)
      assume "attempts sA \<noteq> attempts sB"
      then consider "attempts sA < attempts sB" | "attempts sB < attempts sA" by linarith
      then show False using A(1,2) returned(3,4) by cases auto
    qed
    with A returned runA r show ?thesis by auto
  next
    case (thrown e)
    with assms(2,3) show ?thesis by auto
  next
    case cut
    then show ?thesis by simp
  qed
qed


lemma exhaustion_differs:
  fixes env :: "nat \<Rightarrow> 'd outcome"
  assumes "tokens_A cfg \<noteq> []" and "\<forall>j<maxAttempts. success_of (env j) = None"
  shows "\<not> same_behaviour describe cfg env url opts"
proof
  assume same: "same_behaviour describe cfg env url opts"
  from assms(1) have "tokens_B cfg \<noteq> []" by (simp add: tokens_empty_both)
  from request_B_all_fail [OF this assms(2), of 0 describe url opts]
  obtain e s where run: "request_B maxAttempts describe cfg env url opts = Finished (Throws e) s"
    by auto
  from request_B_exhausted(1) [OF run] have "trace s \<noteq> []" "is_notify (last (trace s))"
    by (simp_all add: notifies_exhaustion_def)
  then have "last (trace s) \<in> set (filter is_notify (trace s))" by simp
  then have "filter is_notify (trace s) \<noteq> []" by force
  moreover from same run have "trace s = trace (snd (request_A cfg env url opts))"
    by (simp add: same_behaviour_def observed_A_def observed_B_def)
  ultimately show False using request_A_no_notify [of cfg env url opts] by simp
qed

lemma no_credentials_differs:
  assumes "tokens_A cfg = []"
  shows "\<not> same_behaviour describe cfg env url opts"
proof -
  from assms have "tokens_B cfg = []" by (simp add: tokens_empty_both)
  from request_B_no_tokens [OF this, of maxAttempts describe env url opts]
  show ?thesis by (auto simp: same_behaviour_def observed_B_def)
qed

lemma single_token_same:
  fixes env :: "nat \<Rightarrow> 'd outcome"
  assumes "tokens_A cfg = [t]" and "t \<noteq> API_KEY cfg" and "k < maxAttempts"
    and "success_of (env k) = Some d0"
  shows "same_behaviour describe cfg env url opts"
proof -
  from assms(1) have "tokens_A cfg \<noteq> []" by simp
  with first_success_agree [of cfg k env d0 url opts describe] assms(3,4)
  obtain d sA sB where run: "request_A cfg env url opts = (Returns d, sA)"
      "request_B maxAttempts describe cfg env url opts = Finished (Returns d) sB"
    and tr: "trace sA = segments (failed_A cfg url opts) 0 (attempts sA) @ [Fetch url (sent_A cfg opts (attempts sA))]"
      "trace sB = segments (failed_B cfg url opts) 0 (attempts sA) @ [Fetch url (sent_B cfg opts (attempts sA))]"
    by blast
  have "failed_A cfg url opts = failed_B cfg url opts"
    using single_token_same_effects(2) [OF assms(1,2)] by (intro ext)
  with tr single_token_same_effects(1) [OF assms(1,2), of opts "attempts sA"]
  have "trace sA = trace sB" by simp
  with run show ?thesis
    by (simp add: same_behaviour_def observed_A_def observed_B_def)
qed

section \<open>\<^verbatim>\<open>normalizeDomain\<close> on the entries of the specification\<close>

lemma normalizeDomain_hosts_entry: "normalizeDomain ''0.0.0.0 example.com'' False = ''example.com''"
  by (simp add: normalizeDomain_def is_space_def)

lemma normalizeDomain_adblock_entry: "normalizeDomain ''||example.com^'' False = ''example.com''"
  by (simp add: normalizeDomain_def is_space_def)

lemma normalizeDomain_wildcard_entry: "normalizeDomain ''*.example.com'' False = ''example.com''"
  by (simp add: normalizeDomain_def is_space_def)

section \<open>The properties\<close>

text \<open>
  C1. In src/lib/helpers.js a failed attempt is followed by one delay of 5000 ms
  exactly when the rotation after it brought the token index back to 0, which
  happens at every \<open>N\<close>-th failed attempt for \<open>N\<close> tokens: one delay per full
  cycle, none after a failure inside a cycle. In src/unnamed/part_000 every
  failed attempt is followed by one delay of 5000 ms, except the one that uses up
  the budget of attempts; the position in the cycle plays no part.
\<close>

theorem backoff_per_cycle_or_per_failure:
  "backoff_once_per_cycle env (length (tokens_A cfg)) (trace (snd (request_A cfg env url opts)))
   \<and> (index_after (length (tokens_A cfg)) (Suc k) = Num 0) = (length (tokens_A cfg) dvd Suc k)
   \<and> backoff_after_failure env (trace (final_state (request_B fuel describe cfg env url opts)))"
  by (simp only: request_A_delays wraps_iff_multiple request_B_delays simp_thms)

text \<open>
  With two tokens, part_000 waits after the first failed attempt, which does
  not complete a cycle.
\<close>

theorem backoff_not_per_cycle_in_part_000:
  "\<not> backoff_once_per_cycle fails_once (length (tokens_B two_tokens))
       (trace (final_state (request_B 3 describe_string two_tokens fails_once ''u'' plain_get)))"
  by (simp add: backoff_once_per_cycle_def request_B_def tokens_B_def two_tokens_def fails_once_def
      initial_def maxAttempts_def attempt_def eval_nat_numeral response_ok_def Let_def index_after_def)

theorem backoff_examples:
  "backoff_once_per_cycle fails_twice (length (tokens_A two_tokens))
     (trace (snd (request_A two_tokens fails_twice ''u'' plain_get)))
   \<and> delays_per_attempt (trace (snd (request_A two_tokens fails_twice ''u'' plain_get))) = [[], [5000], []]
   \<and> backoff_after_failure fails_twice
     (trace (final_state (request_B 3 describe_string two_tokens fails_twice ''u'' plain_get)))
   \<and> delays_per_attempt (trace (final_state (request_B 3 describe_string two_tokens fails_twice ''u'' plain_get)))
        = [[5000], [5000], []]"
proof -
  have "delays_per_attempt (trace (snd (request_A two_tokens fails_twice ''u'' plain_get))) = [[], [5000], []]"
    by (simp add: request_A_def tokens_A_def two_tokens_def fails_twice_def initial_def maxAttempts_def
        attempt_def loop_A.simps catch_A_def response_ok_def Let_def)
  moreover have "delays_per_attempt
      (trace (final_state (request_B 3 describe_string two_tokens fails_twice ''u'' plain_get)))
        = [[5000], [5000], []]"
    by (simp add: request_B_def tokens_B_def two_tokens_def fails_twice_def initial_def maxAttempts_def
        attempt_def eval_nat_numeral response_ok_def Let_def)
  ultimately show ?thesis
    using backoff_per_cycle_or_per_failure [of fails_twice two_tokens "''u''" plain_get 0 3 describe_string]
    by simp
qed

text \<open>
  C2. The specification expects \<^verbatim>\<open>normalizeDomain("@@||example.com", true)\<close> to be
  \<^verbatim>\<open>"example.com"\<close>. The code removes the first \<^verbatim>\<open>||\<close> before it looks for
  \<^verbatim>\<open>@@||\<close>, so the allow-list marker is no longer there to be found and the two
  \<^verbatim>\<open>@\<close> signs stay: the result is \<^verbatim>\<open>"@@example.com"\<close>.
\<close>

theorem normalizeDomain_allowlist_marker_kept:
  "normalizeDomain ''@@||example.com'' True = ''@@example.com''"
  by (simp add: normalizeDomain_def is_space_def)

text \<open>
  C3. src/lib/helpers.js never calls the notifier: when the 50 attempts are used
  up it only throws. In src/unnamed/part_000 a run whose 50 attempts all fail
  throws, and a run that throws has made 50 fetches and has called the notifier
  once, as its last effect, with a message that contains the status of the last
  response, or the words \<^verbatim>\<open>unknown status\<close> when no fetch resolved.
\<close>

theorem exhaustion_notifies_in_part_000_only:
  "filter is_notify (trace (snd (request_A cfg env url opts))) = []
   \<and> (tokens_B cfg \<noteq> [] \<and> (\<forall>k<maxAttempts. success_of (env k) = None) \<longrightarrow>
        (\<exists>e s. request_B maxAttempts describe cfg env url opts = Finished (Throws e) s))
   \<and> (request_B fuel describe cfg env url opts = Finished (Throws e) s \<longrightarrow>
        fetches s = maxAttempts \<and> notifies_exhaustion env (trace s))
   \<and> notify_message (Some st) =
        ''An HTTP error has occurred ('' @ decimal st
          @ '') while making a web request. Please check the logs for further details.''
   \<and> notify_message None =
        ''An HTTP error has occurred (unknown status) while making a web request. Please check the logs for further details.''"
  using request_A_no_notify [of cfg env url opts]
    request_B_exhausted(1,2) [of fuel describe cfg env url opts e s]
    request_B_all_fail [of cfg env 0 describe url opts]
  by (simp add: notify_message_def)

text \<open>
  With one token and 50 failures, src/lib/helpers.js throws and has notified
  nobody.
\<close>

theorem helpers_js_exhaustion_without_notification:
  "fst (request_A one_token always_fails ''u'' plain_get)
     = Throws (JsError ''Error'' ''All tokens failed after maximum attempts'')
   \<and> \<not> notifies_exhaustion always_fails (trace (snd (request_A one_token always_fails ''u'' plain_get)))"
proof -
  have "filter is_notify tr \<noteq> []" if "notifies_exhaustion env tr" for env :: "nat \<Rightarrow> string outcome" and tr
  proof -
    from that have "tr \<noteq> []" and "is_notify (last tr)"
      by (simp_all add: notifies_exhaustion_def)
    then have "last tr \<in> set (filter is_notify tr)" by simp
    then show ?thesis by force
  qed
  with request_A_no_notify [of one_token always_fails "''u''" plain_get]
  have "\<not> notifies_exhaustion always_fails (trace (snd (request_A one_token always_fails ''u'' plain_get)))"
    by blast
  then show ?thesis
    by (simp add: request_A_all_fail always_fails_never_succeeds)
qed

theorem exhaustion_notification_example:
  "\<exists>e s. request_B 50 describe_string two_tokens always_fails ''u'' plain_get = Finished (Throws e) s
     \<and> fetches s = 50 \<and> notifies_exhaustion always_fails (trace s)
     \<and> last (trace s) = Notify
         ''An HTTP error has occurred (503) while making a web request. Please check the logs for further details.''"
proof -
  note inst = exhaustion_notifies_in_part_000_only
    [of two_tokens always_fails "''u''" plain_get describe_string 50 _ _ 503]
  have "tokens_B two_tokens \<noteq> []" by (simp add: tokens_B_def two_tokens_def)
  with inst [of "JsError [] []" initial]
  have "\<exists>e s. request_B 50 describe_string two_tokens always_fails ''u'' plain_get = Finished (Throws e) s"
    by (simp add: always_fails_never_succeeds maxAttempts_def)
  then obtain e s
    where run: "request_B 50 describe_string two_tokens always_fails ''u'' plain_get = Finished (Throws e) s"
    by blast
  from inst [of e s] run
  have *: "fetches s = maxAttempts" "notifies_exhaustion always_fails (trace s)"
    and msg: "notify_message (Some 503) =
        ''An HTTP error has occurred ('' @ decimal 503
          @ '') while making a web request. Please check the logs for further details.''"
    by simp_all
  have "length (filter is_fetch (trace s)) = 50"
    using request_B_fetch_events [of 50 describe_string two_tokens always_fails "''u''" plain_get s] run *
    by (simp add: maxAttempts_def)
  with * have "last (trace s) = Notify (notify_message (Some 503))"
    by (simp add: notifies_exhaustion_def last_status_always_fails)
  with run * msg show ?thesis
    by (simp add: maxAttempts_def decimal_503)
qed

text \<open>
  C4. The specification wants a call with an empty credential set to fail at once
  without any request. With no token configured, src/lib/helpers.js does send
  a request, whose \<^verbatim>\<open>Authorization\<close> header is \<^verbatim>\<open>Bearer undefined\<close>, and
  src/unnamed/part_000 sends none but never ends: whatever the number of
  iterations allowed, its loop is still running, with no attempt counted.
\<close>

theorem request_without_credentials:
  "tokens_A no_credentials = [] \<and> tokens_B no_credentials = []
   \<and> 0 < fetches (snd (request_A no_credentials env url opts))
   \<and> hd (trace (snd (request_A no_credentials env url opts))) = Fetch url (sent_A no_credentials opts 0)
   \<and> the (opt_headers (sent_A no_credentials opts 0)) ''Authorization'' = Some (Str ''Bearer undefined'')
   \<and> (\<exists>s. request_B fuel describe no_credentials env url opts = OutOfFuel s
          \<and> trace s = [] \<and> attempts s = 0)"
proof -
  have t: "tokens_A no_credentials = []" "tokens_B no_credentials = []"
    by (simp_all add: tokens_A_def tokens_B_def no_credentials_def)
  from request_B_no_tokens [OF t(2), of fuel describe env url opts]
  have "\<exists>s. request_B fuel describe no_credentials env url opts = OutOfFuel s
          \<and> trace s = [] \<and> attempts s = 0" by blast
  with t request_A_first_fetch [of no_credentials env url opts] sent_A_no_credentials [of opts]
  show ?thesis by simp
qed

text \<open>
  C5. src/lib/helpers.js makes at most 50 fetches and ends in one of two ways:
  50 failed attempts and the error \<^verbatim>\<open>All tokens failed after maximum attempts\<close>,
  or fewer failed attempts and a returned value. src/unnamed/part_000 does the
  same (with an error of its own) when it has a token: 50 iterations are enough,
  and more change nothing. With no token its loop never ends, so the call
  yields neither a value nor a failure.
\<close>

theorem request_bounded_unless_no_credentials:
  "fetches (snd (request_A cfg env url opts)) \<le> maxAttempts
   \<and> (if attempts (snd (request_A cfg env url opts)) = maxAttempts
       then fst (request_A cfg env url opts)
              = Throws (JsError ''Error'' ''All tokens failed after maximum attempts'')
            \<and> fetches (snd (request_A cfg env url opts)) = maxAttempts
       else \<exists>d. fst (request_A cfg env url opts) = Returns d)
   \<and> (if tokens_B cfg = []
       then \<forall>fuel. \<exists>s. request_B fuel describe cfg env url opts = OutOfFuel s \<and> fetches s = 0
       else \<exists>r s. (\<forall>m. request_B (maxAttempts + m) describe cfg env url opts = Finished r s)
          \<and> fetches s \<le> maxAttempts
          \<and> (if attempts s = maxAttempts then \<exists>e. r = Throws e else \<exists>d. r = Returns d))"
proof (cases "tokens_B cfg = []")
  case True
  have "\<exists>s. request_B fuel describe cfg env url opts = OutOfFuel s \<and> fetches s = 0" for fuel
    using request_B_no_tokens [OF True, of fuel describe env url opts] by blast
  with True request_A_bounded [of cfg env url opts] show ?thesis by simp
next
  case False
  with request_B_bounded [OF False, of describe env url opts] request_A_bounded [of cfg env url opts]
  show ?thesis by simp
qed

text \<open>
  C6. In both files, when the attempt \<open>k\<close> (counted from 0, so \<open>k + 1 \<le> 50\<close>) of
  a run gets a 2xx response whose body parses to \<open>d\<close>, the call returns \<open>d\<close>;
  that fetch is the last one and the last effect of the run, so no attempt and no
  delay follow it; and the token index is the one the attempt used, reached by
  the \<open>k\<close> rotations after the \<open>k\<close> failed attempts before it. For
  src/unnamed/part_000 this holds of every state its loop reaches, so such a
  run has finished.
\<close>

theorem success_ends_the_request:
  assumes "success_of (env k) = Some d"
  shows "(request_A cfg env url opts = (r, s) \<and> k < fetches s \<longrightarrow>
            r = Returns d \<and> fetches s = Suc k \<and> Suc k \<le> maxAttempts \<and> attempts s = k
            \<and> tokenIndex s = index_after (length (tokens_A cfg)) k
            \<and> trace s = segments (failed_A cfg url opts) 0 k @ [Fetch url (sent_A cfg opts k)])
    \<and> (final_state (request_B fuel describe cfg env url opts) = s' \<and> k < fetches s' \<longrightarrow>
            request_B fuel describe cfg env url opts = Finished (Returns d) s'
            \<and> fetches s' = Suc k \<and> Suc k \<le> maxAttempts \<and> attempts s' = k
            \<and> tokenIndex s' = index_after (length (tokens_B cfg)) k
            \<and> trace s' = segments (failed_B cfg url opts) 0 k @ [Fetch url (sent_B cfg opts k)])"
  using request_A_success [of cfg env url opts r s k d]
    request_B_success [of fuel describe cfg env url opts s' k d] assms
  by blast

theorem success_on_third_attempt:
  "success_of (fails_twice 2) = Some ''ok''
   \<and> 2 < fetches (snd (request_A two_tokens fails_twice ''u'' plain_get))
   \<and> fst (request_A two_tokens fails_twice ''u'' plain_get) = Returns ''ok''
   \<and> fetches (snd (request_A two_tokens fails_twice ''u'' plain_get)) = 3
   \<and> trace (snd (request_A two_tokens fails_twice ''u'' plain_get)) =
       [Fetch ''u'' (sent_A two_tokens plain_get 0), Fetch ''u'' (sent_A two_tokens plain_get 1),
        Wait 5000, Fetch ''u'' (sent_A two_tokens plain_get 2)]
   \<and> 2 < fetches (final_state (request_B 3 describe_string two_tokens fails_twice ''u'' plain_get))
   \<and> (\<exists>s. request_B 3 describe_string two_tokens fails_twice ''u'' plain_get = Finished (Returns ''ok'') s
         \<and> fetches s = 3
         \<and> trace s = [Fetch ''u'' (sent_B two_tokens plain_get 0), Wait 5000,
              Fetch ''u'' (sent_B two_tokens plain_get 1), Wait 5000,
              Fetch ''u'' (sent_B two_tokens plain_get 2)])"
proof -
  have ok: "success_of (fails_twice 2) = Some ''ok''"
    by (simp add: fails_twice_def response_ok_def)
  have fa: "fetches (snd (request_A two_tokens fails_twice ''u'' plain_get)) = 3"
    by (simp add: request_A_def tokens_A_def two_tokens_def fails_twice_def initial_def maxAttempts_def
        attempt_def loop_A.simps catch_A_def response_ok_def Let_def)
  have fb: "fetches (final_state (request_B 3 describe_string two_tokens fails_twice ''u'' plain_get)) = 3"
    by (simp add: request_B_def tokens_B_def two_tokens_def fails_twice_def initial_def maxAttempts_def
        attempt_def eval_nat_numeral response_ok_def Let_def)
  have wrap: "index_after (length (tokens_A two_tokens)) (Suc (Suc 0)) = Num 0"
    "index_after (length (tokens_A two_tokens)) (Suc 0) \<noteq> Num 0"
    by (simp_all add: tokens_A_def two_tokens_def index_after_def)
  note inst = success_ends_the_request [where env = fails_twice and k = 2 and d = "''ok''"
      and cfg = two_tokens and url = "''u''" and opts = plain_get
      and r = "fst (request_A two_tokens fails_twice ''u'' plain_get)"
      and s = "snd (request_A two_tokens fails_twice ''u'' plain_get)"
      and fuel = 3 and describe = describe_string
      and s' = "final_state (request_B 3 describe_string two_tokens fails_twice ''u'' plain_get)"]
  have segs: "segments seg 0 2 = seg 0 @ seg 1" for seg
    by (simp add: numeral_2_eq_2)
  from inst fa fb ok wrap show ?thesis
    by (auto simp: segs failed_A_def failed_B_def)
qed

text \<open>
  C7. With \<open>N \<ge> 1\<close> tokens and a token index \<open>i < N\<close>, the rotation step
  \<^verbatim>\<open>(tokenIndex + 1) % tokens.length\<close> applied \<open>N\<close> times gives \<open>i\<close> again, and not
  before; from \<open>i\<close> it reaches every index; it is a bijection on the indices below
  \<open>N\<close>; the index in force after \<open>k + N\<close> failed attempts is the one after \<open>k\<close>;
  and \<open>N\<close> runs of the catch block of src/lib/helpers.js leave the token index
  where it was.
\<close>

theorem token_rotation_cycle:
  assumes "1 \<le> N" and "i < N"
  shows "((\<lambda>idx. next_index idx N) ^^ N) (Num i) = Num i
    \<and> (\<forall>j. 0 < j \<and> j < N \<longrightarrow> ((\<lambda>idx. next_index idx N) ^^ j) (Num i) \<noteq> Num i)
    \<and> (\<forall>t < N. \<exists>j < N. ((\<lambda>idx. next_index idx N) ^^ j) (Num i) = Num t)
    \<and> bij_betw (\<lambda>idx. next_index idx N) (Num ` {..<N}) (Num ` {..<N})
    \<and> index_after N (k + N) = index_after N k
    \<and> (length tokens = N \<and> tokenIndex s = Num i \<longrightarrow>
          tokenIndex ((catch_A tokens ^^ N) s) = Num i)"
proof (intro conjI allI impI)
  from assms have N: "0 < N" by simp
  show "tokenIndex ((catch_A tokens ^^ N) s) = Num i" if "length tokens = N \<and> tokenIndex s = Num i"
    using that N assms(2) by (simp add: catch_A_power rotate_power)
  show "((\<lambda>idx. next_index idx N) ^^ N) (Num i) = Num i"
    using N assms(2) by (simp add: rotate_power)
  show "bij_betw (\<lambda>idx. next_index idx N) (Num ` {..<N}) (Num ` {..<N})"
    using N by (rule rot_bij)
  show "index_after N (k + N) = index_after N k"
    using N by (simp add: index_after_mod)
  show "((\<lambda>idx. next_index idx N) ^^ j) (Num i) \<noteq> Num i" if "0 < j \<and> j < N" for j
  proof -
    have "(i + j) mod N \<noteq> i"
    proof (cases "i + j < N")
      case True
      with that show ?thesis by simp
    next
      case False
      then have "(i + j) mod N = i + j - N"
        using that assms(2) by (simp add: mod_if)
      with that False show ?thesis by arith
    qed
    then show ?thesis using N assms(2) by (simp add: rotate_power)
  qed
  show "\<exists>j<N. ((\<lambda>idx. next_index idx N) ^^ j) (Num i) = Num t" if "t < N" for t
  proof (cases "i \<le> t")
    case True
    with that assms(2) have "t - i < N" "(i + (t - i)) mod N = t" by simp_all
    then show ?thesis using N assms(2) by (auto simp: rotate_power)
  next
    case False
    with that assms(2) have "N - i + t < N" "(i + (N - i + t)) mod N = t" by (simp_all add: mod_if)
    then show ?thesis using N assms(2) by (auto simp: rotate_power)
  qed
qed

theorem token_rotation_cycle_witness:
  "(1::nat) \<le> 4 \<and> (2::nat) < 4 \<and> ((\<lambda>idx. next_index idx 4) ^^ 4) (Num 2) = Num 2
    \<and> index_after 4 (3 + 4) = index_after 4 3
    \<and> tokenIndex ((catch_A [Str ''a'', Str ''b'', Str ''c'', Str ''d''] ^^ 4)
          ((initial :: string state)\<lparr>tokenIndex := Num 2\<rparr>)) = Num 2"
  using token_rotation_cycle [of 4 2 3 "[Str ''a'', Str ''b'', Str ''c'', Str ''d'']"
      "(initial :: string state)\<lparr>tokenIndex := Num 2\<rparr>"]
  by simp

text \<open>
  C8. The fetches of a run are, in order, those of the attempts 0, 1, ... with
  the token in use at each. In src/unnamed/part_000 every one of them sends
  \<^verbatim>\<open>Authorization: Bearer <token>\<close> and \<^verbatim>\<open>Content-Type: application/json\<close>
  whatever the caller put under these keys, and the caller's headers under
  every other key. src/lib/helpers.js does the same as long as the token is not
  the configured \<^verbatim>\<open>API_KEY\<close>; when it is, \<^verbatim>\<open>X-Auth-Email\<close> and
  \<^verbatim>\<open>X-Auth-Key\<close> are set as well, over the caller's entries, and the caller's
  headers are kept under every key but these four.
\<close>

theorem sent_headers:
  "filter is_fetch (trace (snd (request_A cfg env url opts)))
     = map (\<lambda>k. Fetch url (sent_A cfg opts k)) [0..<fetches (snd (request_A cfg env url opts))]
   \<and> filter is_fetch (trace (final_state (request_B fuel describe cfg env url opts)))
     = map (\<lambda>k. Fetch url (sent_B cfg opts k))
         [0..<fetches (final_state (request_B fuel describe cfg env url opts))]
   \<and> authorization_overrides opts (current_token (tokens_B cfg) k) (sent_B cfg opts k)
   \<and> (if current_token (tokens_A cfg) k = API_KEY cfg
       then authorization_and_key_override cfg opts (current_token (tokens_A cfg) k) (sent_A cfg opts k)
       else authorization_overrides opts (current_token (tokens_A cfg) k) (sent_A cfg opts k))"
proof -
  have "request_A cfg env url opts = (fst (request_A cfg env url opts), snd (request_A cfg env url opts))"
    by simp
  from request_A_fetch_events [OF this]
    request_B_fetch_events [OF refl, of fuel describe cfg env url opts]
    headers_B_override [of opts "current_token (tokens_B cfg) k"]
    headers_A_override [of "current_token (tokens_A cfg) k" cfg opts]
  show ?thesis
    unfolding sent_A_def sent_B_def by blast
qed

text \<open>
  When the token is the API key, src/lib/helpers.js replaces the caller's
  \<^verbatim>\<open>X-Auth-Key\<close> header, a key other than the two of the specification.
\<close>

theorem caller_key_header_overridden:
  "current_token (tokens_A key_as_token) 0 = Str ''t0''
   \<and> \<not> authorization_overrides get_with_key (Str ''t0'') (sent_A key_as_token get_with_key 0)"
proof -
  have tok: "current_token (tokens_A key_as_token) 0 = Str ''t0''"
    by (simp add: current_token_def tokens_A_def key_as_token_def index_after_0)
  have "spread (opt_headers (sent_A key_as_token get_with_key 0)) ''X-Auth-Key'' = Some (Str ''t0'')"
    unfolding sent_A_def tok by (simp add: fetch_init_def headers_A_def key_as_token_def)
  moreover have "spread (opt_headers get_with_key) ''X-Auth-Key'' = Some (Str ''mine'')"
    by (simp add: get_with_key_def)
  ultimately have "((spread (opt_headers (sent_A key_as_token get_with_key 0)))
        (''Authorization'' := None, ''Content-Type'' := None)) ''X-Auth-Key''
      \<noteq> ((spread (opt_headers get_with_key))(''Authorization'' := None, ''Content-Type'' := None)) ''X-Auth-Key''"
    by simp
  then have "(spread (opt_headers (sent_A key_as_token get_with_key 0)))
        (''Authorization'' := None, ''Content-Type'' := None)
      \<noteq> (spread (opt_headers get_with_key))(''Authorization'' := None, ''Content-Type'' := None)"
    by metis
  with tok show ?thesis by (simp add: authorization_overrides_def)
qed

theorem sent_headers_example:
  "authorization_and_key_override key_as_token get_with_key (Str ''t0'') (sent_A key_as_token get_with_key 0)
   \<and> spread (opt_headers (sent_A key_as_token get_with_key 0)) ''X-Auth-Key'' = Some (Str ''t0'')
   \<and> authorization_overrides get_with_key (Str ''t0'') (sent_B key_as_token get_with_key 0)
   \<and> spread (opt_headers (sent_B key_as_token get_with_key 0)) ''X-Auth-Key'' = Some (Str ''mine'')
   \<and> spread (opt_headers (sent_B key_as_token get_with_key 0)) ''Authorization'' = Some (Str ''Bearer t0'')"
proof -
  have tok: "current_token (tokens_A key_as_token) 0 = Str ''t0''"
    "current_token (tokens_B key_as_token) 0 = Str ''t0''"
    by (simp_all add: current_token_def tokens_A_def tokens_B_def key_as_token_def index_after_0)
  have key: "API_KEY key_as_token = Str ''t0''" by (simp add: key_as_token_def)
  have "spread (opt_headers (sent_B key_as_token get_with_key 0)) ''X-Auth-Key'' = Some (Str ''mine'')"
    "spread (opt_headers (sent_B key_as_token get_with_key 0)) ''Authorization'' = Some (Str ''Bearer t0'')"
    unfolding sent_B_def tok by (simp_all add: fetch_init_def headers_B_def get_with_key_def)
  with sent_headers [of key_as_token always_fails "''u''" get_with_key 0 describe_string 0] tok key
  show ?thesis by (simp add: authorization_and_key_override_def)
qed

text \<open>
  C9. The two copies of \<^verbatim>\<open>request\<close> are not equivalent. When some token is
  configured and one of the first 50 responses is a success, both return the
  same value after the same number of fetches. Their effects are the same as
  well when exactly one token is configured and it is not the API key. They
  differ whenever all 50 attempts fail (only src/unnamed/part_000 notifies, and
  the errors differ) and whenever no token is configured (src/lib/helpers.js
  ends, src/unnamed/part_000 does not).
\<close>

theorem copies_agree_only_in_part:
  "(tokens_A cfg \<noteq> [] \<and> k < maxAttempts \<and> success_of (env k) = Some d0 \<longrightarrow>
      (\<exists>d sA sB. request_A cfg env url opts = (Returns d, sA)
         \<and> request_B maxAttempts describe cfg env url opts = Finished (Returns d) sB
         \<and> fetches sA = fetches sB))
   \<and> (tokens_A cfg = [t] \<and> t \<noteq> API_KEY cfg \<and> k < maxAttempts \<and> success_of (env k) = Some d0 \<longrightarrow>
        same_behaviour describe cfg env url opts)
   \<and> (tokens_A cfg \<noteq> [] \<and> (\<forall>j<maxAttempts. success_of (env j) = None) \<longrightarrow>
        \<not> same_behaviour describe cfg env url opts)
   \<and> (tokens_A cfg = [] \<longrightarrow> \<not> same_behaviour describe cfg env url opts)"
proof (intro conjI impI)
  assume "tokens_A cfg \<noteq> [] \<and> k < maxAttempts \<and> success_of (env k) = Some d0"
  then show "\<exists>d sA sB. request_A cfg env url opts = (Returns d, sA)
         \<and> request_B maxAttempts describe cfg env url opts = Finished (Returns d) sB
         \<and> fetches sA = fetches sB"
    using first_success_agree [of cfg k env d0 url opts describe] by blast
next
  assume "tokens_A cfg = [t] \<and> t \<noteq> API_KEY cfg \<and> k < maxAttempts \<and> success_of (env k) = Some d0"
  then show "same_behaviour describe cfg env url opts"
    using single_token_same [of cfg t k env d0 describe url opts] by simp
next
  assume "tokens_A cfg \<noteq> [] \<and> (\<forall>j<maxAttempts. success_of (env j) = None)"
  then show "\<not> same_behaviour describe cfg env url opts"
    using exhaustion_differs by blast
next
  assume "tokens_A cfg = []"
  then show "\<not> same_behaviour describe cfg env url opts"
    by (rule no_credentials_differs)
qed

text \<open>
  With two tokens and a first attempt that fails, src/lib/helpers.js starts
  with \<^verbatim>\<open>API_TOKEN_1\<close> and does not wait, src/unnamed/part_000 starts with
  \<^verbatim>\<open>API_TOKEN\<close> and waits: two effects against three.
\<close>

theorem copies_differ_with_two_tokens:
  "\<not> same_behaviour describe_string two_tokens fails_once ''u'' plain_get"
proof -
  have A: "length (snd (observed_A two_tokens fails_once ''u'' plain_get)) = 2"
    by (simp add: observed_A_def request_A_def tokens_A_def two_tokens_def fails_once_def initial_def
        maxAttempts_def attempt_def loop_A.simps catch_A_def response_ok_def Let_def)
  have "\<exists>r s. request_B (Suc (Suc 0)) describe_string two_tokens fails_once ''u'' plain_get = Finished r s
      \<and> length (trace s) = 3"
    by (simp add: request_B_def tokens_B_def two_tokens_def fails_once_def initial_def
        maxAttempts_def attempt_def response_ok_def Let_def)
  then obtain r s
    where run: "loop_B (Suc (Suc 0)) describe_string fails_once ''u'' plain_get (tokens_B two_tokens) initial
        = Finished r s"
      and len: "length (trace s) = 3"
    unfolding request_B_def by blast
  have "request_B maxAttempts describe_string two_tokens fails_once ''u'' plain_get = Finished r s"
    using loop_B_fuel_mono [OF run, of 48] by (simp add: request_B_def maxAttempts_def)
  then have "observed_B maxAttempts describe_string two_tokens fails_once ''u'' plain_get = Some (r, trace s)"
    by (simp add: observed_B_def)
  moreover have "(r, trace s) \<noteq> observed_A two_tokens fails_once ''u'' plain_get"
  proof
    assume "(r, trace s) = observed_A two_tokens fails_once ''u'' plain_get"
    then have "length (snd (r, trace s)) = length (snd (observed_A two_tokens fails_once ''u'' plain_get))"
      by (rule arg_cong)
    with A len show False by simp
  qed
  ultimately show ?thesis
    by (simp add: same_behaviour_def)
qed

theorem copies_agree_with_one_token:
  "same_behaviour describe_string one_token fails_once ''u'' plain_get
   \<and> fst (observed_A one_token fails_once ''u'' plain_get) = Returns ''ok''
   \<and> length (snd (observed_A one_token fails_once ''u'' plain_get)) = 3
   \<and> \<not> same_behaviour describe_string one_token always_fails ''u'' plain_get
   \<and> \<not> same_behaviour describe_string no_credentials fails_once ''u'' plain_get"
proof -
  have tok: "tokens_A one_token = [Str ''t0'']" "Str ''t0'' \<noteq> API_KEY one_token"
    "tokens_A no_credentials = []"
    by (simp_all add: tokens_A_def one_token_def no_credentials_def)
  have ok: "(1::nat) < maxAttempts" "success_of (fails_once 1) = Some ''ok''"
    by (simp_all add: maxAttempts_def fails_once_def response_ok_def)
  have A: "fst (observed_A one_token fails_once ''u'' plain_get) = Returns ''ok''"
    "length (snd (observed_A one_token fails_once ''u'' plain_get)) = 3"
    by (simp_all add: observed_A_def request_A_def tokens_A_def one_token_def fails_once_def initial_def
        maxAttempts_def attempt_def loop_A.simps catch_A_def response_ok_def Let_def)
  from copies_agree_only_in_part [of one_token 1 fails_once "''ok''" "''u''" plain_get describe_string "Str ''t0''"]
    copies_agree_only_in_part [of one_token 1 always_fails "''ok''" "''u''" plain_get describe_string "Str ''t0''"]
    copies_agree_only_in_part [of no_credentials 1 fails_once "''ok''" "''u''" plain_get describe_string "Str ''t0''"]
    tok ok A
  show ?thesis by (simp add: always_fails_never_succeeds)
qed

text \<open>
  C10. The header object built by src/lib/helpers.js for an attempt has the keys
  \<^verbatim>\<open>X-Auth-Email\<close> (the account email) and \<^verbatim>\<open>X-Auth-Key\<close> (the API key) exactly
  when the token of the attempt is equal to \<^verbatim>\<open>API_KEY\<close>; otherwise its keys are
  the two of every attempt. The one built by src/unnamed/part_000 never has
  them. Every fetch of a run is made with the header object built for the token
  in use, merged over the caller's headers.
\<close>

theorem account_key_headers:
  "headers_A cfg tok ''X-Auth-Email'' = (if tok = API_KEY cfg then Some (ACCOUNT_EMAIL cfg) else None)
   \<and> headers_A cfg tok ''X-Auth-Key'' = (if tok = API_KEY cfg then Some (API_KEY cfg) else None)
   \<and> dom (headers_A cfg tok) =
        (if tok = API_KEY cfg then {''Authorization'', ''Content-Type'', ''X-Auth-Email'', ''X-Auth-Key''}
         else {''Authorization'', ''Content-Type''})
   \<and> headers_B tok ''X-Auth-Email'' = None \<and> headers_B tok ''X-Auth-Key'' = None
   \<and> dom (headers_B tok) = {''Authorization'', ''Content-Type''}
   \<and> filter is_fetch (trace (snd (request_A cfg env url opts)))
        = map (\<lambda>k. Fetch url (fetch_init opts (headers_A cfg (current_token (tokens_A cfg) k))))
            [0..<fetches (snd (request_A cfg env url opts))]
   \<and> filter is_fetch (trace (final_state (request_B fuel describe cfg env url opts)))
        = map (\<lambda>k. Fetch url (fetch_init opts (headers_B (current_token (tokens_B cfg) k))))
            [0..<fetches (final_state (request_B fuel describe cfg env url opts))]"
proof -
  have "request_A cfg env url opts = (fst (request_A cfg env url opts), snd (request_A cfg env url opts))"
    by simp
  from request_A_fetch_events [OF this]
    request_B_fetch_events [OF refl, of fuel describe cfg env url opts]
  have ev: "filter is_fetch (trace (snd (request_A cfg env url opts)))
        = map (\<lambda>k. Fetch url (fetch_init opts (headers_A cfg (current_token (tokens_A cfg) k))))
            [0..<fetches (snd (request_A cfg env url opts))]"
    "filter is_fetch (trace (final_state (request_B fuel describe cfg env url opts)))
        = map (\<lambda>k. Fetch url (fetch_init opts (headers_B (current_token (tokens_B cfg) k))))
            [0..<fetches (final_state (request_B fuel describe cfg env url opts))]"
    unfolding sent_A_def sent_B_def by blast+
  have "dom (headers_A cfg tok) =
        (if tok = API_KEY cfg then {''Authorization'', ''Content-Type'', ''X-Auth-Email'', ''X-Auth-Key''}
         else {''Authorization'', ''Content-Type''})"
    by (auto simp: headers_A_def)
  moreover have "dom (headers_B tok) = {''Authorization'', ''Content-Type''}"
    by (auto simp: headers_B_def)
  moreover have "headers_A cfg tok ''X-Auth-Email'' = (if tok = API_KEY cfg then Some (ACCOUNT_EMAIL cfg) else None)"
    "headers_A cfg tok ''X-Auth-Key'' = (if tok = API_KEY cfg then Some (API_KEY cfg) else None)"
    "headers_B tok ''X-Auth-Email'' = None" "headers_B tok ''X-Auth-Key'' = None"
    by (simp_all add: headers_A_def headers_B_def)
  ultimately show ?thesis using ev by blast
qed

end
